theory Spec2Isabelle
  imports Main "HOL-Library.Word" "HOL-Library.Monad_Syntax"
begin


section \<open>Memory model\<close>

text \<open>
  The source is \<^verbatim>\<open>single-linked-list.h\<close>: a class template \<^verbatim>\<open>SingleLinkedList<Type>\<close>
  whose objects hold a sentinel \<^verbatim>\<open>Node head_\<close> and a counter \<^verbatim>\<open>size_t size_\<close>, with the real
  nodes allocated by \<^verbatim>\<open>new\<close> and linked through raw \<^verbatim>\<open>Node*\<close> pointers.

  A \<^verbatim>\<open>Node*\<close> is the null pointer, the address of the \<^verbatim>\<open>head_\<close> member of a list object, or
  the address of a node obtained from \<^verbatim>\<open>new\<close>.
\<close>

datatype ptr = Null | Head nat | Cell nat

text \<open>
  \<^verbatim>\<open>struct Node { Type value; Node *next_node = nullptr; }\<close>. The member \<^verbatim>\<open>value\<close> is
  \<open>value_m\<close> here; \<open>None\<close> is the default-initialised payload left by \<^verbatim>\<open>Node() = default\<close>,
  which only the sentinel has.
\<close>

record 'a Node =
  value_m :: "'a option"
  next_node :: ptr

type_synonym size_t = "64 word"

text \<open>The data members \<^verbatim>\<open>head_\<close> and \<^verbatim>\<open>size_\<close> of a list object.\<close>

record 'a SingleLinkedList =
  head_m :: "'a Node"
  size_m :: size_t

text \<open>
  The store holds the list objects and the nodes made by \<^verbatim>\<open>new\<close>, each indexed by its
  address. A slot is \<open>None\<close> once its object has been destroyed. Addresses are handed out
  in increasing order and never reused; allocation does not fail.
\<close>

record 'a store =
  objs :: "'a SingleLinkedList option list"
  heap :: "'a Node option list"

definition slot :: "'x option list \<Rightarrow> nat \<Rightarrow> 'x option" where
  "slot xs i = (if i < length xs then xs ! i else None)"

text \<open>Reading \<^verbatim>\<open>*p\<close>. A null or dangling pointer has no node: undefined behaviour is \<open>None\<close>.\<close>

fun load :: "'a store \<Rightarrow> ptr \<Rightarrow> 'a Node option" where
  "load s Null = None"
| "load s (Head l) = map_option head_m (slot (objs s) l)"
| "load s (Cell a) = slot (heap s) a"

text \<open>The assignment \<^verbatim>\<open>p->next_node = q\<close>.\<close>

fun store_next :: "'a store \<Rightarrow> ptr \<Rightarrow> ptr \<Rightarrow> 'a store option" where
  "store_next s Null q = None"
| "store_next s (Head l) q =
     (case slot (objs s) l of
        None \<Rightarrow> None
      | Some L \<Rightarrow>
          Some (s\<lparr>objs := (objs s)[l := Some (L\<lparr>head_m := (head_m L)\<lparr>next_node := q\<rparr>\<rparr>)]\<rparr>))"
| "store_next s (Cell a) q =
     (case slot (heap s) a of
        None \<Rightarrow> None
      | Some n \<Rightarrow> Some (s\<lparr>heap := (heap s)[a := Some (n\<lparr>next_node := q\<rparr>)]\<rparr>))"

text \<open>\<^verbatim>\<open>new Node(val, next)\<close>: the node is placed at the first address never used.\<close>

definition new_Node :: "'a store \<Rightarrow> 'a \<Rightarrow> ptr \<Rightarrow> ptr \<times> 'a store" where
  "new_Node s v nxt =
     (Cell (length (heap s)),
      s\<lparr>heap := heap s @ [Some \<lparr>value_m = Some v, next_node = nxt\<rparr>]\<rparr>)"

text \<open>
  \<^verbatim>\<open>delete p\<close>. Deleting the null pointer does nothing; deleting a node that is not a live
  node from \<^verbatim>\<open>new\<close> is undefined.
\<close>

fun delete_Node :: "'a store \<Rightarrow> ptr \<Rightarrow> 'a store option" where
  "delete_Node s Null = Some s"
| "delete_Node s (Head l) = None"
| "delete_Node s (Cell a) =
     (case slot (heap s) a of
        None \<Rightarrow> None
      | Some n \<Rightarrow> Some (s\<lparr>heap := (heap s)[a := None]\<rparr>))"

text \<open>Writing the member \<^verbatim>\<open>size_\<close> of the list object at \<open>l\<close>.\<close>

definition set_size :: "'a store \<Rightarrow> nat \<Rightarrow> size_t \<Rightarrow> 'a store option" where
  "set_size s l n =
     (case slot (objs s) l of
        None \<Rightarrow> None
      | Some L \<Rightarrow> Some (s\<lparr>objs := (objs s)[l := Some (L\<lparr>size_m := n\<rparr>)]\<rparr>))"

section \<open>Iterators\<close>

text \<open>
  \<^verbatim>\<open>BasicIterator<ValueType>\<close> has the single member \<^verbatim>\<open>Node *node_\<close>, null by default.
  \<^verbatim>\<open>Iterator\<close> and \<^verbatim>\<open>ConstIterator\<close> differ only in the constness of the reference they
  yield, so one type models both.
\<close>

record BasicIterator =
  node_m :: ptr

definition Iterator :: "ptr \<Rightarrow> BasicIterator" where
  "Iterator p = \<lparr>node_m = p\<rparr>"

definition Iterator_default :: BasicIterator where
  "Iterator_default = \<lparr>node_m = Null\<rparr>"

text \<open>\<^verbatim>\<open>operator==\<close> and \<^verbatim>\<open>operator!=\<close> of iterators compare the node pointers.\<close>

definition iter_eq :: "BasicIterator \<Rightarrow> BasicIterator \<Rightarrow> bool" where
  "iter_eq a b = (node_m a = node_m b)"

definition iter_ne :: "BasicIterator \<Rightarrow> BasicIterator \<Rightarrow> bool" where
  "iter_ne a b = (node_m a \<noteq> node_m b)"

text \<open>\<^verbatim>\<open>operator++\<close> (the iterator after the step) and \<^verbatim>\<open>operator*\<close>.\<close>

definition iter_incr :: "'a store \<Rightarrow> BasicIterator \<Rightarrow> BasicIterator option" where
  "iter_incr s it = do { n \<leftarrow> load s (node_m it); Some (it\<lparr>node_m := next_node n\<rparr>) }"

definition iter_deref :: "'a store \<Rightarrow> BasicIterator \<Rightarrow> 'a option" where
  "iter_deref s it = do { n \<leftarrow> load s (node_m it); value_m n }"

section \<open>The list operations\<close>

text \<open>
  Every member function takes the store and the address \<open>this\<close> of the list object it is
  called on. \<^verbatim>\<open>begin\<close>, \<^verbatim>\<open>cbegin\<close> read \<^verbatim>\<open>head_.next_node\<close>; \<^verbatim>\<open>end\<close>, \<^verbatim>\<open>cend\<close> return a
  default-constructed iterator and \<^verbatim>\<open>before_begin\<close>, \<^verbatim>\<open>cbefore_begin\<close> the address of
  \<^verbatim>\<open>head_\<close>, without reading the object.
\<close>

definition begin_iter :: "'a store \<Rightarrow> nat \<Rightarrow> BasicIterator option" where
  "begin_iter s this = do { L \<leftarrow> slot (objs s) this; Some (Iterator (next_node (head_m L))) }"

definition end_iter :: "nat \<Rightarrow> BasicIterator" where
  "end_iter this = Iterator_default"

definition cbegin :: "'a store \<Rightarrow> nat \<Rightarrow> BasicIterator option" where
  "cbegin s this = do { L \<leftarrow> slot (objs s) this; Some (Iterator (next_node (head_m L))) }"

definition cend :: "nat \<Rightarrow> BasicIterator" where
  "cend this = Iterator_default"

definition before_begin :: "nat \<Rightarrow> BasicIterator" where
  "before_begin this = Iterator (Head this)"

definition cbefore_begin :: "nat \<Rightarrow> BasicIterator" where
  "cbefore_begin this = Iterator (Head this)"

text \<open>
  Storage for a new list object, as a declaration provides it before the constructor body
  runs: \<^verbatim>\<open>head_\<close> is default-initialised (\<^verbatim>\<open>next_node = nullptr\<close>), \<^verbatim>\<open>size_\<close> has no
  initialiser and holds whatever \<open>junk\<close> was in memory.
\<close>

definition declare_list :: "'a store \<Rightarrow> size_t \<Rightarrow> nat \<times> 'a store" where
  "declare_list s junk =
     (length (objs s),
      s\<lparr>objs := objs s @
         [Some \<lparr>head_m = \<lparr>value_m = None, next_node = Null\<rparr>, size_m = junk\<rparr>]\<rparr>)"

text \<open>
  \<^verbatim>\<open>SingleLinkedList () { Node head_; size_ = 0u; }\<close>: the local \<^verbatim>\<open>head_\<close> is a dead
  temporary; the body sets \<^verbatim>\<open>size_\<close>.
\<close>

definition SingleLinkedList_default :: "'a store \<Rightarrow> size_t \<Rightarrow> (nat \<times> 'a store) option" where
  "SingleLinkedList_default s junk =
     (let (this, s1) = declare_list s junk in
      do { s2 \<leftarrow> set_size s1 this 0; Some (this, s2) })"

definition incr_size :: "'a store \<Rightarrow> nat \<Rightarrow> 'a store option" where
  "incr_size s this = do { L \<leftarrow> slot (objs s) this; set_size s this (size_m L + 1) }"

definition decr_size :: "'a store \<Rightarrow> nat \<Rightarrow> 'a store option" where
  "decr_size s this = do { L \<leftarrow> slot (objs s) this; set_size s this (size_m L - 1) }"

definition PushFront :: "'a store \<Rightarrow> nat \<Rightarrow> 'a \<Rightarrow> 'a store option" where
  "PushFront s this v = do {
     L \<leftarrow> slot (objs s) this;
     let (p, s1) = new_Node s v (next_node (head_m L));
     s2 \<leftarrow> store_next s1 (Head this) p;
     incr_size s2 this
   }"

partial_function (option) Clear_loop :: "'a store \<Rightarrow> nat \<Rightarrow> 'a store option" where
  "Clear_loop s this = do {
     L \<leftarrow> slot (objs s) this;
     if next_node (head_m L) \<noteq> Null then do {
       n \<leftarrow> load s (next_node (head_m L));
       let new_head = next_node n;
       s1 \<leftarrow> delete_Node s (next_node (head_m L));
       s2 \<leftarrow> store_next s1 (Head this) new_head;
       Clear_loop s2 this
     } else Some s
   }"

declare Clear_loop.simps [code]

definition Clear :: "'a store \<Rightarrow> nat \<Rightarrow> 'a store option" where
  "Clear s this = do { s1 \<leftarrow> Clear_loop s this; set_size s1 this 0 }"

definition GetSize :: "'a store \<Rightarrow> nat \<Rightarrow> size_t option" where
  "GetSize s this = do { L \<leftarrow> slot (objs s) this; Some (size_m L) }"

definition IsEmpty :: "'a store \<Rightarrow> nat \<Rightarrow> bool option" where
  "IsEmpty s this = do {
     L \<leftarrow> slot (objs s) this;
     let result = (if size_m L \<noteq> 0 then False else True);
     Some result
   }"

definition PopFront :: "'a store \<Rightarrow> nat \<Rightarrow> 'a store option" where
  "PopFront s this = do {
     L \<leftarrow> slot (objs s) this;
     if next_node (head_m L) \<noteq> Null then do {
       let curr = next_node (head_m L);
       c \<leftarrow> load s curr;
       s1 \<leftarrow> store_next s (Head this) (next_node c);
       s2 \<leftarrow> delete_Node s1 curr;
       decr_size s2 this
     } else Some s
   }"

definition EraseAfter :: "'a store \<Rightarrow> nat \<Rightarrow> BasicIterator \<Rightarrow> (BasicIterator \<times> 'a store) option" where
  "EraseAfter s this pos = do {
     n \<leftarrow> load s (node_m pos);
     let curr = next_node n;
     c \<leftarrow> load s curr;
     s1 \<leftarrow> store_next s (node_m pos) (next_node c);
     s2 \<leftarrow> delete_Node s1 curr;
     s3 \<leftarrow> decr_size s2 this;
     n' \<leftarrow> load s3 (node_m pos);
     Some (Iterator (next_node n'), s3)
   }"

definition InsertAfter :: "'a store \<Rightarrow> nat \<Rightarrow> BasicIterator \<Rightarrow> 'a \<Rightarrow> (BasicIterator \<times> 'a store) option" where
  "InsertAfter s this pos v = do {
     n \<leftarrow> load s (node_m pos);
     let (new_node, s1) = new_Node s v (next_node n);
     s2 \<leftarrow> store_next s1 (node_m pos) new_node;
     s3 \<leftarrow> incr_size s2 this;
     n' \<leftarrow> load s3 (node_m pos);
     Some (Iterator (next_node n'), s3)
   }"

text \<open>
  \<^verbatim>\<open>swap\<close> exchanges \<^verbatim>\<open>head_.next_node\<close> and \<^verbatim>\<open>size_\<close> of the two objects, statement by
  statement; the free function \<^verbatim>\<open>swap(lhs, rhs)\<close> calls \<^verbatim>\<open>lhs.swap(rhs)\<close>.
\<close>

definition swap :: "'a store \<Rightarrow> nat \<Rightarrow> nat \<Rightarrow> 'a store option" where
  "swap s this other = do {
     O1 \<leftarrow> slot (objs s) other;
     let tmp = next_node (head_m O1);
     T1 \<leftarrow> slot (objs s) this;
     s1 \<leftarrow> store_next s (Head other) (next_node (head_m T1));
     s2 \<leftarrow> store_next s1 (Head this) tmp;
     O2 \<leftarrow> slot (objs s2) other;
     let tmp_size = size_m O2;
     T2 \<leftarrow> slot (objs s2) this;
     s3 \<leftarrow> set_size s2 other (size_m T2);
     set_size s3 this tmp_size
   }"

definition swap_free :: "'a store \<Rightarrow> nat \<Rightarrow> nat \<Rightarrow> 'a store option" where
  "swap_free s lhs rhs = swap s lhs rhs"

text \<open>
  \<^verbatim>\<open>MakeCopy\<close> for \<^verbatim>\<open>Collection = SingleLinkedList\<close>. The inner \<^verbatim>\<open>while\<close> loop carries the
  source iterator, the last node built and the running count (the local \<^verbatim>\<open>size\<close>, here \<open>sz\<close>).
\<close>

partial_function (option) MakeCopy_loop ::
  "'a store \<Rightarrow> BasicIterator \<Rightarrow> BasicIterator \<Rightarrow> ptr \<Rightarrow> size_t \<Rightarrow> ('a store \<times> size_t) option" where
  "MakeCopy_loop s curr_iter collection_end new_node sz =
     (if iter_ne curr_iter collection_end then do {
        v \<leftarrow> iter_deref s curr_iter;
        let (p, s1) = new_Node s v Null;
        s2 \<leftarrow> store_next s1 new_node p;
        let sz = sz + 1;
        n \<leftarrow> load s2 new_node;
        let new_node = next_node n;
        curr_iter \<leftarrow> iter_incr s2 curr_iter;
        MakeCopy_loop s2 curr_iter collection_end new_node sz
      } else Some (s, sz))"

declare MakeCopy_loop.simps [code]

definition MakeCopy :: "'a store \<Rightarrow> nat \<Rightarrow> nat \<Rightarrow> 'a store option" where
  "MakeCopy s res_list collection = do {
     curr_iter \<leftarrow> cbegin s collection;
     let collection_end = cend collection;
     let sz = 0;
     if iter_ne curr_iter collection_end then do {
       v \<leftarrow> iter_deref s curr_iter;
       let (p, s1) = new_Node s v Null;
       s2 \<leftarrow> store_next s1 (Head res_list) p;
       let sz = sz + 1;
       curr_iter \<leftarrow> iter_incr s2 curr_iter;
       R \<leftarrow> slot (objs s2) res_list;
       let new_node = next_node (head_m R);
       (s3, sz) \<leftarrow> MakeCopy_loop s2 curr_iter collection_end new_node sz;
       set_size s3 res_list sz
     } else Some s
   }"

text \<open>
  \<^verbatim>\<open>MakeCopy\<close> for \<^verbatim>\<open>Collection = std::initializer_list<Type>\<close>: the iterator is a
  pointer into the array of values, modelled by the values still to be read.
\<close>

fun MakeCopy_values_loop ::
  "'a store \<Rightarrow> 'a list \<Rightarrow> ptr \<Rightarrow> size_t \<Rightarrow> ('a store \<times> size_t) option" where
  "MakeCopy_values_loop s [] new_node sz = Some (s, sz)"
| "MakeCopy_values_loop s (v # rest) new_node sz = do {
     let (p, s1) = new_Node s v Null;
     s2 \<leftarrow> store_next s1 new_node p;
     let sz = sz + 1;
     n \<leftarrow> load s2 new_node;
     let new_node = next_node n;
     MakeCopy_values_loop s2 rest new_node sz
   }"

definition MakeCopy_values :: "'a store \<Rightarrow> nat \<Rightarrow> 'a list \<Rightarrow> 'a store option" where
  "MakeCopy_values s res_list collection =
     (case collection of
        [] \<Rightarrow> Some s
      | v # rest \<Rightarrow> do {
          let (p, s1) = new_Node s v Null;
          s2 \<leftarrow> store_next s1 (Head res_list) p;
          let sz = 0 + 1;
          R \<leftarrow> slot (objs s2) res_list;
          let new_node = next_node (head_m R);
          (s3, sz) \<leftarrow> MakeCopy_values_loop s2 rest new_node sz;
          set_size s3 res_list sz
        })"

text \<open>The destructor runs \<^verbatim>\<open>Clear()\<close>; then the object's storage is gone.\<close>

definition destroy :: "'a store \<Rightarrow> nat \<Rightarrow> 'a store option" where
  "destroy s this = do {
     s1 \<leftarrow> Clear s this;
     Some (s1\<lparr>objs := (objs s1)[this := None]\<rparr>)
   }"

text \<open>
  \<^verbatim>\<open>operator=\<close>: unless \<^verbatim>\<open>this == &rhs\<close>, copy into a local list, swap, and let the local
  list's destructor release the old nodes. The local list is default-constructed, so
  its \<^verbatim>\<open>size_\<close> does not depend on what its storage held (\<open>0\<close> is passed for it).
\<close>

definition assign :: "'a store \<Rightarrow> nat \<Rightarrow> nat \<Rightarrow> 'a store option" where
  "assign s this rhs =
     (if this \<noteq> rhs then do {
        (current_list, s1) \<leftarrow> SingleLinkedList_default s 0;
        s2 \<leftarrow> MakeCopy s1 current_list rhs;
        s3 \<leftarrow> swap s2 this current_list;
        destroy s3 current_list
      } else Some s)"

text \<open>
  The constructors from an initializer list and from another list have no member
  initialisers and never assign \<^verbatim>\<open>size_\<close> before the swap: the new object starts with
  \<open>junk\<close> in \<^verbatim>\<open>size_\<close>, which the swap hands to the local list.
\<close>

definition SingleLinkedList_values :: "'a store \<Rightarrow> size_t \<Rightarrow> 'a list \<Rightarrow> (nat \<times> 'a store) option" where
  "SingleLinkedList_values s junk values =
     (let (this, s0) = declare_list s junk in do {
        (current_list, s1) \<leftarrow> SingleLinkedList_default s0 0;
        s2 \<leftarrow> MakeCopy_values s1 current_list values;
        s3 \<leftarrow> swap s2 this current_list;
        s4 \<leftarrow> destroy s3 current_list;
        Some (this, s4)
      })"

definition SingleLinkedList_copy :: "'a store \<Rightarrow> size_t \<Rightarrow> nat \<Rightarrow> (nat \<times> 'a store) option" where
  "SingleLinkedList_copy s junk other =
     (let (this, s0) = declare_list s junk in do {
        (current_list, s1) \<leftarrow> SingleLinkedList_default s0 0;
        s2 \<leftarrow> assign s1 current_list other;
        s3 \<leftarrow> swap s2 this current_list;
        s4 \<leftarrow> destroy s3 current_list;
        Some (this, s4)
      })"

text \<open>
  A client's full forward traversal,
  \<^verbatim>\<open>for (auto it = l.begin(); it != l.end(); ++it) out.push_back(*it);\<close>
\<close>

partial_function (option) traverse ::
  "'a store \<Rightarrow> BasicIterator \<Rightarrow> BasicIterator \<Rightarrow> 'a list option" where
  "traverse s it stop =
     (if iter_ne it stop then do {
        v \<leftarrow> iter_deref s it;
        it' \<leftarrow> iter_incr s it;
        vs \<leftarrow> traverse s it' stop;
        Some (v # vs)
      } else Some [])"

declare traverse.simps [code]

definition elements :: "'a store \<Rightarrow> nat \<Rightarrow> 'a list option" where
  "elements s this = do { b \<leftarrow> begin_iter s this; traverse s b (end_iter this) }"

section \<open>Comparison operators\<close>

text \<open>
  The operators call \<^verbatim>\<open>std::equal\<close> and \<^verbatim>\<open>std::lexicographical_compare\<close> on two iterator
  ranges. Both are modelled as the C++ standard defines them for forward iterators: walk
  both ranges in step while neither is exhausted.
\<close>

partial_function (option) std_equal ::
  "'a store \<Rightarrow> BasicIterator \<Rightarrow> BasicIterator \<Rightarrow> BasicIterator \<Rightarrow> BasicIterator \<Rightarrow> bool option" where
  "std_equal s first1 last1 first2 last2 =
     (if iter_ne first1 last1 \<and> iter_ne first2 last2 then do {
        a \<leftarrow> iter_deref s first1;
        b \<leftarrow> iter_deref s first2;
        if \<not> (a = b) then Some False
        else do {
          first1 \<leftarrow> iter_incr s first1;
          first2 \<leftarrow> iter_incr s first2;
          std_equal s first1 last1 first2 last2
        }
      } else Some (iter_eq first1 last1 \<and> iter_eq first2 last2))"

declare std_equal.simps [code]

partial_function (option) std_lexicographical_compare ::
  "('a::ord) store \<Rightarrow> BasicIterator \<Rightarrow> BasicIterator \<Rightarrow> BasicIterator \<Rightarrow> BasicIterator
     \<Rightarrow> bool option" where
  "std_lexicographical_compare s first1 last1 first2 last2 =
     (if iter_ne first1 last1 \<and> iter_ne first2 last2 then do {
        a \<leftarrow> iter_deref s first1;
        b \<leftarrow> iter_deref s first2;
        if a < b then Some True
        else if b < a then Some False
        else do {
          first1 \<leftarrow> iter_incr s first1;
          first2 \<leftarrow> iter_incr s first2;
          std_lexicographical_compare s first1 last1 first2 last2
        }
      } else Some (iter_eq first1 last1 \<and> iter_ne first2 last2))"

declare std_lexicographical_compare.simps [code]

definition list_eq :: "'a store \<Rightarrow> nat \<Rightarrow> nat \<Rightarrow> bool option" where
  "list_eq s lhs rhs = do {
     b1 \<leftarrow> cbegin s lhs;
     b2 \<leftarrow> cbegin s rhs;
     std_equal s b1 (cend lhs) b2 (cend rhs)
   }"

definition list_ne :: "'a store \<Rightarrow> nat \<Rightarrow> nat \<Rightarrow> bool option" where
  "list_ne s lhs rhs = do {
     b1 \<leftarrow> cbegin s lhs;
     b2 \<leftarrow> cbegin s rhs;
     r \<leftarrow> std_equal s b1 (cend lhs) b2 (cend rhs);
     Some (\<not> r)
   }"

definition list_lt :: "('a::ord) store \<Rightarrow> nat \<Rightarrow> nat \<Rightarrow> bool option" where
  "list_lt s lhs rhs = do {
     b1 \<leftarrow> cbegin s lhs;
     b2 \<leftarrow> cbegin s rhs;
     std_lexicographical_compare s b1 (cend lhs) b2 (cend rhs)
   }"

text \<open>\<^verbatim>\<open>lhs < rhs || lhs == rhs\<close> evaluates its right operand only when the left is false.\<close>

definition list_le :: "('a::ord) store \<Rightarrow> nat \<Rightarrow> nat \<Rightarrow> bool option" where
  "list_le s lhs rhs = do {
     lt \<leftarrow> list_lt s lhs rhs;
     if lt then Some True else list_eq s lhs rhs
   }"

definition list_gt :: "('a::ord) store \<Rightarrow> nat \<Rightarrow> nat \<Rightarrow> bool option" where
  "list_gt s lhs rhs = do { le \<leftarrow> list_le s lhs rhs; Some (\<not> le) }"

definition list_ge :: "('a::ord) store \<Rightarrow> nat \<Rightarrow> nat \<Rightarrow> bool option" where
  "list_ge s lhs rhs = do { lt \<leftarrow> list_lt s lhs rhs; Some (\<not> lt) }"

section \<open>Representation of a list in the store\<close>

text \<open>
  \<open>path h p avs q\<close>: following \<^verbatim>\<open>next_node\<close> from \<open>p\<close> passes exactly the live nodes at the
  addresses \<open>map fst avs\<close>, holding the values \<open>map snd avs\<close>, and arrives at \<open>q\<close>.
  \<open>chain\<close> is a path to the null pointer.
\<close>

fun path :: "'a Node option list \<Rightarrow> ptr \<Rightarrow> (nat \<times> 'a) list \<Rightarrow> ptr \<Rightarrow> bool" where
  "path h p [] q = (p = q)"
| "path h p ((a, v) # r) q =
     (p = Cell a \<and>
      (case slot h a of
         None \<Rightarrow> False
       | Some n \<Rightarrow> value_m n = Some v \<and> path h (next_node n) r q))"

definition chain :: "'a Node option list \<Rightarrow> ptr \<Rightarrow> (nat \<times> 'a) list \<Rightarrow> bool" where
  "chain h p avs = path h p avs Null"

text \<open>
  \<open>nodes_at s l avs\<close>: the list object at \<open>l\<close> is alive and the link of its sentinel starts
  a chain through the nodes \<open>avs\<close>. \<open>list_at\<close> adds that \<^verbatim>\<open>size_\<close> is their number.
\<close>

definition nodes_at :: "'a store \<Rightarrow> nat \<Rightarrow> (nat \<times> 'a) list \<Rightarrow> bool" where
  "nodes_at s l avs =
     (case slot (objs s) l of
        None \<Rightarrow> False
      | Some L \<Rightarrow> chain (heap s) (next_node (head_m L)) avs)"

definition list_at :: "'a store \<Rightarrow> nat \<Rightarrow> (nat \<times> 'a) list \<Rightarrow> bool" where
  "list_at s l avs =
     (case slot (objs s) l of
        None \<Rightarrow> False
      | Some L \<Rightarrow> chain (heap s) (next_node (head_m L)) avs \<and> unat (size_m L) = length avs)"


text \<open>
  Positions for \<^verbatim>\<open>InsertAfter\<close> and \<^verbatim>\<open>EraseAfter\<close>: \<open>pos_after l xs\<close> is the iterator a
  caller holds after the prefix \<open>xs\<close> of the nodes of \<open>l\<close>, that is, \<^verbatim>\<open>before_begin()\<close> when
  \<open>xs\<close> is empty and the last node of \<open>xs\<close> otherwise. \<open>ptr_of ys\<close> is the pointer to the
  first node of \<open>ys\<close>, null when there is none.
\<close>

definition pos_after :: "nat \<Rightarrow> (nat \<times> 'a) list \<Rightarrow> BasicIterator" where
  "pos_after l xs = Iterator (if xs = [] then Head l else Cell (fst (last xs)))"

definition ptr_of :: "(nat \<times> 'a) list \<Rightarrow> ptr" where
  "ptr_of ys = (case ys of [] \<Rightarrow> Null | (a, v) # r \<Rightarrow> Cell a)"

text \<open>
  \<open>untouched s Ls As s'\<close>: going from \<open>s\<close> to \<open>s'\<close>, every list object of \<open>s\<close> outside \<open>Ls\<close>
  and every node of \<open>s\<close> outside \<open>As\<close> is left as it was, and no address is given up.
\<close>

definition untouched :: "'a store \<Rightarrow> nat set \<Rightarrow> nat set \<Rightarrow> 'a store \<Rightarrow> bool" where
  "untouched s Ls As s' \<longleftrightarrow>
     (\<forall>l. l \<notin> Ls \<and> l < length (objs s) \<longrightarrow> slot (objs s') l = slot (objs s) l) \<and>
     (\<forall>a. a \<notin> As \<and> a < length (heap s) \<longrightarrow> slot (heap s') a = slot (heap s) a) \<and>
     length (objs s) \<le> length (objs s') \<and> length (heap s) \<le> length (heap s')"

text \<open>
  The standard lexicographic order on value sequences, as the specification names it:
  the first position where the sequences differ decides, and a proper prefix is smaller.
\<close>

fun lex_less :: "('a::linorder) list \<Rightarrow> 'a list \<Rightarrow> bool" where
  "lex_less [] [] = False"
| "lex_less [] (y # ys) = True"
| "lex_less (x # xs) [] = False"
| "lex_less (x # xs) (y # ys) = (x < y \<or> (x = y \<and> lex_less xs ys))"

text \<open>The nodes a copy allocates: consecutive new addresses from \<open>k\<close> on, holding \<open>vs\<close>.\<close>

definition fresh_nodes :: "nat \<Rightarrow> 'a list \<Rightarrow> (nat \<times> 'a) list" where
  "fresh_nodes k vs = zip [k..<k + length vs] vs"

text \<open>A client calling \<^verbatim>\<open>PushFront(v1)\<close>, ..., \<^verbatim>\<open>PushFront(vn)\<close> in this order.\<close>

fun push_all :: "'a store \<Rightarrow> nat \<Rightarrow> 'a list \<Rightarrow> 'a store option" where
  "push_all s l [] = Some s"
| "push_all s l (v # vs) = do { s' \<leftarrow> PushFront s l v; push_all s' l vs }"

text \<open>
  A store for the examples: the list object at 0 holds 1, 2, 3, the one at 1 holds 1, 2,
  the one at 2 is empty and the one at 3 holds 1, 2, 4.
\<close>

definition example_store :: "int store" where
  "example_store =
     \<lparr>objs = [Some \<lparr>head_m = \<lparr>value_m = None, next_node = Cell 0\<rparr>, size_m = 3\<rparr>,
              Some \<lparr>head_m = \<lparr>value_m = None, next_node = Cell 3\<rparr>, size_m = 2\<rparr>,
              Some \<lparr>head_m = \<lparr>value_m = None, next_node = Null\<rparr>, size_m = 0\<rparr>,
              Some \<lparr>head_m = \<lparr>value_m = None, next_node = Cell 5\<rparr>, size_m = 3\<rparr>],
      heap = [Some \<lparr>value_m = Some 1, next_node = Cell 1\<rparr>,
              Some \<lparr>value_m = Some 2, next_node = Cell 2\<rparr>,
              Some \<lparr>value_m = Some 3, next_node = Null\<rparr>,
              Some \<lparr>value_m = Some 1, next_node = Cell 4\<rparr>,
              Some \<lparr>value_m = Some 2, next_node = Null\<rparr>,
              Some \<lparr>value_m = Some 1, next_node = Cell 6\<rparr>,
              Some \<lparr>value_m = Some 2, next_node = Cell 7\<rparr>,
              Some \<lparr>value_m = Some 4, next_node = Null\<rparr>]\<rparr>"

text \<open>
  The equality the size invariant is about, in terms of the public interface:
  \<^verbatim>\<open>GetSize()\<close> returns the number of elements a full traversal yields.
\<close>

definition size_agrees :: "'a store \<Rightarrow> nat \<Rightarrow> bool" where
  "size_agrees s l =
     (case GetSize s l of
        None \<Rightarrow> False
      | Some n \<Rightarrow> (case elements s l of None \<Rightarrow> False | Some vs \<Rightarrow> unat n = length vs))"

text \<open>
  Clients that mutate one list through its own interface. A position is reached the way
  a client reaches it: from \<^verbatim>\<open>before_begin()\<close> by \<open>k\<close> increments.
\<close>

fun advance :: "'a store \<Rightarrow> BasicIterator \<Rightarrow> nat \<Rightarrow> BasicIterator option" where
  "advance s it 0 = Some it"
| "advance s it (Suc k) = do { it' \<leftarrow> iter_incr s it; advance s it' k }"

datatype 'a mutation =
  Do_PushFront 'a
| Do_PopFront
| Do_InsertAfter nat 'a
| Do_EraseAfter nat
| Do_Clear

fun mutate :: "'a store \<Rightarrow> nat \<Rightarrow> 'a mutation \<Rightarrow> 'a store option" where
  "mutate s l (Do_PushFront v) = PushFront s l v"
| "mutate s l Do_PopFront = PopFront s l"
| "mutate s l (Do_InsertAfter k v) = do {
     pos \<leftarrow> advance s (before_begin l) k;
     (it, s') \<leftarrow> InsertAfter s l pos v;
     Some s'
   }"
| "mutate s l (Do_EraseAfter k) = do {
     pos \<leftarrow> advance s (before_begin l) k;
     (it, s') \<leftarrow> EraseAfter s l pos;
     Some s'
   }"
| "mutate s l Do_Clear = Clear s l"

fun mutate_all :: "'a store \<Rightarrow> nat \<Rightarrow> 'a mutation list \<Rightarrow> 'a store option" where
  "mutate_all s l [] = Some s"
| "mutate_all s l (m # ms) = do { s' \<leftarrow> mutate s l m; mutate_all s' l ms }"


lemma slot_append [simp]: "slot (xs @ [x]) i = (if i = length xs then x else slot xs i)"
  by (auto simp: slot_def nth_append)

lemma slot_update [simp]:
  "slot (xs[i := x]) j = (if j = i \<and> i < length xs then x else slot xs j)"
  by (auto simp: slot_def)

lemma slot_Some_less: "slot xs i = Some y \<Longrightarrow> i < length xs"
  by (auto simp: slot_def split: if_splits)

lemma slot_length [simp]: "slot xs (length xs) = None"
  by (simp add: slot_def)

lemma path_append: "path h p (xs @ ys) q \<longleftrightarrow> (\<exists>m. path h p xs m \<and> path h m ys q)"
  by (induction xs arbitrary: p) (auto split: option.splits)

lemma path_less: "path h p avs q \<Longrightarrow> (a, v) \<in> set avs \<Longrightarrow> a < length h"
  by (induction avs arbitrary: p) (auto split: option.splits dest: slot_Some_less)

lemma path_cong:
  "path h p avs q \<Longrightarrow> (\<And>a. a \<in> fst ` set avs \<Longrightarrow> slot h' a = slot h a) \<Longrightarrow> path h' p avs q"
  by (induction avs arbitrary: p) (auto split: option.splits)

lemma chain_unique: "chain h p avs \<Longrightarrow> chain h p bvs \<Longrightarrow> avs = bvs"
proof (induction avs arbitrary: p bvs)
  case Nil
  then show ?case by (cases bvs) (auto simp: chain_def)
next
  case (Cons x avs)
  then show ?case by (cases x; cases bvs) (auto simp: chain_def split: option.splits)
qed

lemma chain_head_notin_tail:
  assumes "chain h (Cell a) ((a, v) # r)"
  shows "a \<notin> fst ` set r"
proof
  assume "a \<in> fst ` set r"
  then obtain w where "(a, w) \<in> set r" by auto
  then obtain r1 r2 where r: "r = r1 @ (a, w) # r2" by (auto simp: in_set_conv_decomp)
  from assms have "path h (Cell a) (((a, v) # r1) @ ((a, w) # r2)) Null"
    by (simp add: chain_def r)
  then obtain m where m: "path h (Cell a) ((a, v) # r1) m" "path h m ((a, w) # r2) Null"
    unfolding path_append by blast
  then have "chain h (Cell a) ((a, w) # r2)" by (simp add: chain_def)
  with assms have "(a, v) # r = (a, w) # r2" by (rule chain_unique)
  then show False by (simp add: r)
qed

lemma chain_distinct: "chain h p avs \<Longrightarrow> distinct (map fst avs)"
proof (induction avs arbitrary: p)
  case Nil
  then show ?case by simp
next
  case (Cons x avs)
  obtain a v where x: "x = (a, v)" by (cases x)
  from Cons.prems have p: "p = Cell a" by (simp add: chain_def x)
  from Cons.prems obtain n where n: "slot h a = Some n" "chain h (next_node n) avs"
    by (auto simp: chain_def x split: option.splits)
  have "a \<notin> fst ` set avs" using Cons.prems chain_head_notin_tail unfolding p x by fast
  with Cons.IH [OF n(2)] show ?case by (simp add: x)
qed


lemma chain_cong:
  "chain h p avs \<Longrightarrow> (\<And>a. a \<in> fst ` set avs \<Longrightarrow> slot h' a = slot h a) \<Longrightarrow> chain h' p avs"
  unfolding chain_def by (rule path_cong)

lemma chain_less: "chain h p avs \<Longrightarrow> a \<in> fst ` set avs \<Longrightarrow> a < length h"
  unfolding chain_def by (auto dest: path_less)

lemma chain_append_new:
  assumes "chain h p avs"
  shows "chain (h @ [x]) p avs"
proof (rule chain_cong [OF assms])
  fix a assume "a \<in> fst ` set avs"
  then have "a < length h" using assms by (rule chain_less [rotated])
  then show "slot (h @ [x]) a = slot h a" by simp
qed

lemma list_atD:
  "list_at s l avs \<Longrightarrow>
     \<exists>L. slot (objs s) l = Some L \<and> l < length (objs s) \<and>
         chain (heap s) (next_node (head_m L)) avs \<and> unat (size_m L) = length avs"
  by (auto simp: list_at_def split: option.splits dest: slot_Some_less)

lemma unat_succ: "Suc (unat (w :: size_t)) < 2 ^ 64 \<Longrightarrow> unat (w + 1) = Suc (unat w)"
  using unat_add_lem [of w 1] by simp

lemma PushFront_list_at:
  assumes "list_at s l avs" "Suc (length avs) < 2 ^ 64"
  shows "\<exists>s'. PushFront s l v = Some s' \<and> list_at s' l ((length (heap s), v) # avs)"
proof -
  from assms(1) obtain L where L: "slot (objs s) l = Some L" "l < length (objs s)"
    "chain (heap s) (next_node (head_m L)) avs" "unat (size_m L) = length avs"
    by (blast dest: list_atD)
  have "unat (size_m L + 1) = Suc (length avs)" using assms(2) L(4) by (simp add: unat_succ)
  then show ?thesis using L
    by (simp add: PushFront_def new_Node_def incr_size_def set_size_def list_at_def chain_def
        chain_append_new [unfolded chain_def])
qed

lemma chain_ptr_of: "chain h p avs \<Longrightarrow> p = ptr_of avs"
  by (cases avs) (auto simp: chain_def ptr_of_def)

lemma path_ptr_of_Null: "path h p avs Null \<Longrightarrow> p = ptr_of avs"
  by (cases avs) (auto simp: ptr_of_def)

lemma InsertAfter_Head:
  assumes "slot (objs s) l = Some L"
  shows "InsertAfter s l (Iterator (Head l)) v =
    Some (Iterator (Cell (length (heap s))),
      s\<lparr>heap := heap s @ [Some \<lparr>value_m = Some v, next_node = next_node (head_m L)\<rparr>],
        objs := (objs s)[l := Some (L\<lparr>head_m := (head_m L)\<lparr>next_node := Cell (length (heap s))\<rparr>,
                                     size_m := size_m L + 1\<rparr>)]\<rparr>)"
  using assms slot_Some_less [OF assms]
  by (simp add: InsertAfter_def Iterator_def new_Node_def incr_size_def set_size_def)

lemma InsertAfter_Cell:
  assumes "slot (objs s) l = Some L" "slot (heap s) x = Some n"
  shows "InsertAfter s l (Iterator (Cell x)) v =
    Some (Iterator (Cell (length (heap s))),
      s\<lparr>heap := (heap s @ [Some \<lparr>value_m = Some v, next_node = next_node n\<rparr>])
                  [x := Some (n\<lparr>next_node := Cell (length (heap s))\<rparr>)],
        objs := (objs s)[l := Some (L\<lparr>size_m := size_m L + 1\<rparr>)]\<rparr>)"
  using assms slot_Some_less [OF assms(1)] slot_Some_less [OF assms(2)]
  by (simp add: InsertAfter_def Iterator_def new_Node_def incr_size_def set_size_def)

lemma EraseAfter_Head:
  assumes "slot (objs s) l = Some L" "next_node (head_m L) = Cell a" "slot (heap s) a = Some c"
  shows "EraseAfter s l (Iterator (Head l)) =
    Some (Iterator (next_node c),
      s\<lparr>heap := (heap s)[a := None],
        objs := (objs s)[l := Some (L\<lparr>head_m := (head_m L)\<lparr>next_node := next_node c\<rparr>,
                                     size_m := size_m L - 1\<rparr>)]\<rparr>)"
  using assms slot_Some_less [OF assms(1)] slot_Some_less [OF assms(3)]
  by (simp add: EraseAfter_def Iterator_def decr_size_def set_size_def)

lemma EraseAfter_Cell:
  assumes "slot (objs s) l = Some L" "slot (heap s) x = Some n" "next_node n = Cell a"
    "slot (heap s) a = Some c" "a \<noteq> x"
  shows "EraseAfter s l (Iterator (Cell x)) =
    Some (Iterator (next_node c),
      s\<lparr>heap := (heap s)[x := Some (n\<lparr>next_node := next_node c\<rparr>), a := None],
        objs := (objs s)[l := Some (L\<lparr>size_m := size_m L - 1\<rparr>)]\<rparr>)"
  using assms slot_Some_less [OF assms(1)] slot_Some_less [OF assms(2)] slot_Some_less [OF assms(4)]
  by (simp add: EraseAfter_def Iterator_def decr_size_def set_size_def)

lemma PopFront_Cell:
  assumes "slot (objs s) l = Some L" "next_node (head_m L) = Cell a" "slot (heap s) a = Some c"
  shows "PopFront s l =
    Some (s\<lparr>heap := (heap s)[a := None],
        objs := (objs s)[l := Some (L\<lparr>head_m := (head_m L)\<lparr>next_node := next_node c\<rparr>,
                                     size_m := size_m L - 1\<rparr>)]\<rparr>)"
  using assms slot_Some_less [OF assms(1)] slot_Some_less [OF assms(3)]
  by (simp add: PopFront_def decr_size_def set_size_def)

lemma PopFront_Null:
  assumes "slot (objs s) l = Some L" "next_node (head_m L) = Null"
  shows "PopFront s l = Some s"
  using assms by (simp add: PopFront_def)

lemma PushFront_eq:
  assumes "slot (objs s) l = Some L"
  shows "PushFront s l v =
    Some (s\<lparr>heap := heap s @ [Some \<lparr>value_m = Some v, next_node = next_node (head_m L)\<rparr>],
        objs := (objs s)[l := Some (L\<lparr>head_m := (head_m L)\<lparr>next_node := Cell (length (heap s))\<rparr>,
                                     size_m := size_m L + 1\<rparr>)]\<rparr>)"
  using assms slot_Some_less [OF assms]
  by (simp add: PushFront_def new_Node_def incr_size_def set_size_def)

lemma untouched_refl: "untouched s Ls As s"
  by (simp add: untouched_def)

lemma untouched_trans:
  "untouched s L1 A1 s1 \<Longrightarrow> untouched s1 L2 A2 s2 \<Longrightarrow> L1 \<union> L2 \<subseteq> L \<Longrightarrow> A1 \<union> A2 \<subseteq> A
    \<Longrightarrow> untouched s L A s2"
proof -
  assume a: "untouched s L1 A1 s1" "untouched s1 L2 A2 s2" "L1 \<union> L2 \<subseteq> L" "A1 \<union> A2 \<subseteq> A"
  have "slot (objs s2) l = slot (objs s) l" if "l \<notin> L" "l < length (objs s)" for l
  proof -
    have "l \<notin> L1" "l \<notin> L2" "l < length (objs s1)" using that a by (auto simp: untouched_def)
    then show ?thesis using that a(1,2) by (simp add: untouched_def)
  qed
  moreover have "slot (heap s2) b = slot (heap s) b" if "b \<notin> A" "b < length (heap s)" for b
  proof -
    have "b \<notin> A1" "b \<notin> A2" "b < length (heap s1)" using that a by (auto simp: untouched_def)
    then show ?thesis using that a(1,2) by (simp add: untouched_def)
  qed
  ultimately show ?thesis using a(1,2) by (simp add: untouched_def)
qed

lemma nodes_atD:
  "nodes_at s l avs \<Longrightarrow>
     \<exists>L. slot (objs s) l = Some L \<and> l < length (objs s) \<and>
         chain (heap s) (next_node (head_m L)) avs"
  by (auto simp: nodes_at_def split: option.splits dest: slot_Some_less)

lemma nodes_at_untouched:
  assumes "nodes_at s l avs" "untouched s Ls As s'" "l \<notin> Ls" "fst ` set avs \<inter> As = {}"
  shows "nodes_at s' l avs"
proof -
  from assms(1) obtain L where L: "slot (objs s) l = Some L" "l < length (objs s)"
    "chain (heap s) (next_node (head_m L)) avs"
    by (blast dest: nodes_atD)
  have 1: "slot (objs s') l = Some L" using assms(2,3) L(1,2) by (simp add: untouched_def)
  have "chain (heap s') (next_node (head_m L)) avs"
  proof (rule chain_cong [OF L(3)])
    fix a assume a: "a \<in> fst ` set avs"
    then have "a < length (heap s)" using L(3) by (rule chain_less [rotated])
    moreover have "a \<notin> As" using a assms(4) by auto
    ultimately show "slot (heap s') a = slot (heap s) a" using assms(2) by (simp add: untouched_def)
  qed
  with 1 show ?thesis by (simp add: nodes_at_def)
qed

lemma GetSize_untouched:
  assumes "GetSize s l = Some n" "untouched s Ls As s'" "l \<notin> Ls"
  shows "GetSize s' l = Some n"
  using assms by (auto simp: GetSize_def untouched_def split: bind_splits dest: slot_Some_less)

lemma list_at_iff: "list_at s l avs \<longleftrightarrow> nodes_at s l avs \<and> map_option unat (GetSize s l) = Some (length avs)"
  by (auto simp: list_at_def nodes_at_def GetSize_def split: option.splits)

lemma InsertAfter_nodes_at:
  assumes "nodes_at s l (xs @ ys)" "GetSize s l = Some n"
  shows "\<exists>s'. InsertAfter s l (pos_after l xs) v = Some (Iterator (Cell (length (heap s))), s') \<and>
      nodes_at s' l (xs @ (length (heap s), v) # ys) \<and> GetSize s' l = Some (n + 1) \<and>
      untouched s {l} (fst ` set xs) s'"
proof -
  from assms(1) obtain L where L: "slot (objs s) l = Some L" "l < length (objs s)"
    "chain (heap s) (next_node (head_m L)) (xs @ ys)"
    by (blast dest: nodes_atD)
  from assms(2) L(1) have n: "size_m L = n" by (simp add: GetSize_def)
  let ?k = "length (heap s)"
  have less: "\<And>a. a \<in> fst ` set (xs @ ys) \<Longrightarrow> a < ?k" using L(3) by (rule chain_less)
  have dist: "distinct (map fst (xs @ ys))" using L(3) by (rule chain_distinct)
  show ?thesis
  proof (cases xs rule: rev_cases)
    case Nil
    have "chain (heap s @ [Some \<lparr>value_m = Some v, next_node = next_node (head_m L)\<rparr>])
        (next_node (head_m L)) ys"
      using L(3) Nil by (simp add: chain_append_new)
    then show ?thesis using L(1,2) n Nil
      by (simp add: pos_after_def InsertAfter_Head [OF L(1)] nodes_at_def chain_def GetSize_def
          untouched_def)
  next
    case (snoc xs' xv)
    obtain x vx where xv: "xv = (x, vx)" by (cases xv)
    from L(3) obtain m where m: "path (heap s) (next_node (head_m L)) xs' m"
      "path (heap s) m ((x, vx) # ys) Null"
      unfolding chain_def snoc xv by (auto simp: path_append)
    then obtain nd where nd: "m = Cell x" "slot (heap s) x = Some nd" "value_m nd = Some vx"
      "path (heap s) (next_node nd) ys Null"
      by (auto split: option.splits)
    have x: "x < ?k" "x \<notin> fst ` set xs'" "x \<notin> fst ` set ys"
      using less dist by (auto simp: snoc xv)
    let ?h = "(heap s @ [Some \<lparr>value_m = Some v, next_node = next_node nd\<rparr>])
                  [x := Some (nd\<lparr>next_node := Cell ?k\<rparr>)]"
    have 1: "path ?h (next_node (head_m L)) xs' (Cell x)"
      using m(1) unfolding nd(1)
    proof (rule path_cong)
      fix a assume a: "a \<in> fst ` set xs'"
      then have "a \<noteq> x" using x(2) by auto
      moreover have "a < ?k" using a by (intro less) (auto simp: snoc)
      ultimately show "slot ?h a = slot (heap s) a" by simp
    qed
    have 2: "path ?h (next_node nd) ys Null"
      using nd(4)
    proof (rule path_cong)
      fix a assume a: "a \<in> fst ` set ys"
      then have "a \<noteq> x" using x(3) by auto
      moreover have "a < ?k" using a by (intro less) (auto simp: snoc)
      ultimately show "slot ?h a = slot (heap s) a" by simp
    qed
    have "path ?h (next_node (head_m L)) (xs' @ (x, vx) # (?k, v) # ys) Null"
      unfolding path_append using 1 2 x(1) nd(3) by (intro exI [of _ "Cell x"]) simp
    then show ?thesis using L(1,2) n nd(2) x(1)
      by (auto simp: pos_after_def InsertAfter_Cell [OF L(1) nd(2)] nodes_at_def chain_def
          GetSize_def untouched_def snoc xv)
  qed
qed



lemma traverse_chain:
  "chain (heap s) p avs \<Longrightarrow> traverse s (Iterator p) Iterator_default = Some (map snd avs)"
proof (induction avs arbitrary: p)
  case Nil
  then show ?case
    by (subst traverse.simps) (simp add: chain_def iter_ne_def Iterator_def Iterator_default_def)
next
  case (Cons x avs)
  obtain a v where x: "x = (a, v)" by (cases x)
  from Cons.prems obtain n where n: "p = Cell a" "slot (heap s) a = Some n" "value_m n = Some v"
    "chain (heap s) (next_node n) avs"
    by (auto simp: chain_def x split: option.splits)
  have "traverse s (Iterator (next_node n)) Iterator_default = Some (map snd avs)"
    using n(4) by (rule Cons.IH)
  then show ?case using n(1-3)
    by (subst traverse.simps)
      (simp add: iter_ne_def iter_deref_def iter_incr_def Iterator_def Iterator_default_def x)
qed

lemma elements_nodes_at: "nodes_at s l avs \<Longrightarrow> elements s l = Some (map snd avs)"
  by (auto simp: nodes_at_def elements_def begin_iter_def end_iter_def traverse_chain
      split: option.splits)

lemma std_equal_chain:
  "chain (heap s) p avs \<Longrightarrow> chain (heap s) q bvs \<Longrightarrow>
   std_equal s (Iterator p) Iterator_default (Iterator q) Iterator_default =
     Some (map snd avs = map snd bvs)"
proof (induction avs arbitrary: p q bvs)
  case Nil
  then show ?case
    by (subst std_equal.simps)
      (cases bvs; auto simp: chain_def iter_ne_def iter_eq_def Iterator_def Iterator_default_def)
next
  case (Cons x avs)
  obtain a v where x: "x = (a, v)" by (cases x)
  from Cons.prems(1) obtain n where n: "p = Cell a" "slot (heap s) a = Some n"
    "value_m n = Some v" "chain (heap s) (next_node n) avs"
    by (auto simp: chain_def x split: option.splits)
  show ?case
  proof (cases bvs)
    case Nil
    then show ?thesis using Cons.prems(2) n(1)
      by (subst std_equal.simps)
        (simp add: chain_def iter_ne_def iter_eq_def Iterator_def Iterator_default_def)
  next
    case (Cons y bvs')
    obtain b w where y: "y = (b, w)" by (cases y)
    from Cons.prems(2) obtain m where m: "q = Cell b" "slot (heap s) b = Some m"
      "value_m m = Some w" "chain (heap s) (next_node m) bvs'"
      by (auto simp: chain_def Cons y split: option.splits)
    have "std_equal s (Iterator (next_node n)) Iterator_default (Iterator (next_node m))
        Iterator_default = Some (map snd avs = map snd bvs')"
      using n(4) m(4) by (rule Cons.IH)
    then show ?thesis using n(1-3) m(1-3)
      by (subst std_equal.simps)
        (simp add: iter_ne_def iter_deref_def iter_incr_def Iterator_def Iterator_default_def
          x y Cons)
  qed
qed


lemma lex_less_lexord: "lex_less xs ys \<longleftrightarrow> (xs, ys) \<in> lexord {(a, b). a < b}"
  by (induction xs ys rule: lex_less.induct) auto

lemma std_lexicographical_compare_chain:
  "chain (heap s) p avs \<Longrightarrow> chain (heap s) q bvs \<Longrightarrow>
   std_lexicographical_compare s (Iterator p) Iterator_default (Iterator q) Iterator_default =
     Some (lex_less (map snd avs) (map snd bvs))"
proof (induction avs arbitrary: p q bvs)
  case Nil
  then show ?case
    by (subst std_lexicographical_compare.simps)
      (cases bvs; auto simp: chain_def iter_ne_def iter_eq_def Iterator_def Iterator_default_def)
next
  case (Cons x avs)
  obtain a v where x: "x = (a, v)" by (cases x)
  from Cons.prems(1) obtain n where n: "p = Cell a" "slot (heap s) a = Some n"
    "value_m n = Some v" "chain (heap s) (next_node n) avs"
    by (auto simp: chain_def x split: option.splits)
  show ?case
  proof (cases bvs)
    case Nil
    then show ?thesis using Cons.prems(2) n(1)
      by (subst std_lexicographical_compare.simps)
        (simp add: chain_def iter_ne_def iter_eq_def Iterator_def Iterator_default_def x)
  next
    case (Cons y bvs')
    obtain b w where y: "y = (b, w)" by (cases y)
    from Cons.prems(2) obtain m where m: "q = Cell b" "slot (heap s) b = Some m"
      "value_m m = Some w" "chain (heap s) (next_node m) bvs'"
      by (auto simp: chain_def Cons y split: option.splits)
    have "std_lexicographical_compare s (Iterator (next_node n)) Iterator_default
        (Iterator (next_node m)) Iterator_default = Some (lex_less (map snd avs) (map snd bvs'))"
      using n(4) m(4) by (rule Cons.IH)
    then show ?thesis using n(1-3) m(1-3)
      by (subst std_lexicographical_compare.simps)
        (auto simp: iter_ne_def iter_deref_def iter_incr_def Iterator_def Iterator_default_def
          x y Cons)
  qed
qed

lemma cbegin_nodes_at:
  "nodes_at s l avs \<Longrightarrow> cbegin s l = Some (Iterator (ptr_of avs)) \<and> chain (heap s) (ptr_of avs) avs"
proof -
  assume "nodes_at s l avs"
  then obtain L where L: "slot (objs s) l = Some L" "chain (heap s) (next_node (head_m L)) avs"
    by (blast dest: nodes_atD)
  from L(2) have "next_node (head_m L) = ptr_of avs" by (rule chain_ptr_of)
  with L show ?thesis by (simp add: cbegin_def)
qed

lemma begin_iter_nodes_at:
  "nodes_at s l avs \<Longrightarrow> begin_iter s l = Some (Iterator (ptr_of avs))"
  by (auto simp: nodes_at_def begin_iter_def split: option.splits dest: chain_ptr_of)

lemma list_eq_nodes_at:
  "nodes_at s l avs \<Longrightarrow> nodes_at s r bvs \<Longrightarrow> list_eq s l r = Some (map snd avs = map snd bvs)"
  by (simp add: list_eq_def cend_def cbegin_nodes_at std_equal_chain)

lemma list_lt_nodes_at:
  "nodes_at s l avs \<Longrightarrow> nodes_at s r bvs \<Longrightarrow>
     list_lt s l r = Some (lex_less (map snd avs) (map snd bvs))"
  by (simp add: list_lt_def cend_def cbegin_nodes_at std_lexicographical_compare_chain)


lemma PushFront_nodes_at:
  assumes "nodes_at s l avs" "GetSize s l = Some n"
  shows "\<exists>s'. PushFront s l v = Some s' \<and> nodes_at s' l ((length (heap s), v) # avs) \<and>
      GetSize s' l = Some (n + 1) \<and> untouched s {l} {} s'"
proof -
  from assms(1) obtain L where L: "slot (objs s) l = Some L" "l < length (objs s)"
    "chain (heap s) (next_node (head_m L)) avs"
    by (blast dest: nodes_atD)
  from assms(2) L(1) have n: "size_m L = n" by (simp add: GetSize_def)
  have "chain (heap s @ [Some \<lparr>value_m = Some v, next_node = next_node (head_m L)\<rparr>])
      (next_node (head_m L)) avs"
    using L(3) by (simp add: chain_append_new)
  then show ?thesis using L(1,2) n
    by (simp add: PushFront_eq [OF L(1)] nodes_at_def chain_def GetSize_def untouched_def)
qed

lemma EraseAfter_nodes_at:
  assumes "nodes_at s l (xs @ (a, w) # ys)" "GetSize s l = Some n"
  shows "\<exists>s'. EraseAfter s l (pos_after l xs) = Some (Iterator (ptr_of ys), s') \<and>
      nodes_at s' l (xs @ ys) \<and> GetSize s' l = Some (n - 1) \<and>
      untouched s {l} (fst ` set (xs @ [(a, w)])) s' \<and> slot (heap s') a = None"
proof -
  from assms(1) obtain L where L: "slot (objs s) l = Some L" "l < length (objs s)"
    "chain (heap s) (next_node (head_m L)) (xs @ (a, w) # ys)"
    by (blast dest: nodes_atD)
  from assms(2) L(1) have n: "size_m L = n" by (simp add: GetSize_def)
  have less: "\<And>b. b \<in> fst ` set (xs @ (a, w) # ys) \<Longrightarrow> b < length (heap s)"
    using L(3) by (rule chain_less)
  have dist: "distinct (map fst (xs @ (a, w) # ys))" using L(3) by (rule chain_distinct)
  from L(3) obtain m where m: "path (heap s) (next_node (head_m L)) xs m"
    "path (heap s) m ((a, w) # ys) Null"
    unfolding chain_def by (auto simp: path_append)
  then obtain c where c: "m = Cell a" "slot (heap s) a = Some c" "value_m c = Some w"
    "path (heap s) (next_node c) ys Null"
    by (auto split: option.splits)
  have nc: "next_node c = ptr_of ys" using c(4) by (rule path_ptr_of_Null)
  have a: "a < length (heap s)" "a \<notin> fst ` set xs" "a \<notin> fst ` set ys"
    using less dist by auto
  show ?thesis
  proof (cases xs rule: rev_cases)
    case Nil
    have hd: "next_node (head_m L) = Cell a" using m(1) c(1) Nil by simp
    have "path ((heap s)[a := None]) (next_node c) ys Null"
      using c(4)
    proof (rule path_cong)
      fix b assume "b \<in> fst ` set ys"
      then have "b \<noteq> a" using a(3) by auto
      then show "slot ((heap s)[a := None]) b = slot (heap s) b" by simp
    qed
    then show ?thesis using L(1,2) n Nil nc a(1)
      by (simp add: pos_after_def EraseAfter_Head [OF L(1) hd c(2)] nodes_at_def chain_def
          GetSize_def untouched_def)
  next
    case (snoc xs' xv)
    obtain x vx where xv: "xv = (x, vx)" by (cases xv)
    from m(1) obtain m' where m': "path (heap s) (next_node (head_m L)) xs' m'"
      "path (heap s) m' [(x, vx)] m"
      unfolding snoc xv by (auto simp: path_append)
    then obtain nd where nd: "m' = Cell x" "slot (heap s) x = Some nd" "value_m nd = Some vx"
      "next_node nd = Cell a"
      using c(1) by (auto split: option.splits)
    have x: "x < length (heap s)" "x \<notin> fst ` set xs'" "x \<notin> fst ` set ys" "a \<noteq> x"
      using less dist by (auto simp: snoc xv)
    let ?h = "(heap s)[x := Some (nd\<lparr>next_node := next_node c\<rparr>), a := None]"
    have 1: "path ?h (next_node (head_m L)) xs' (Cell x)"
      using m'(1) unfolding nd(1)
    proof (rule path_cong)
      fix b assume b: "b \<in> fst ` set xs'"
      then have "b \<noteq> x" using x(2) by auto
      moreover have "b \<noteq> a" using b a(2) by (auto simp: snoc)
      ultimately show "slot ?h b = slot (heap s) b" by simp
    qed
    have 2: "path ?h (next_node c) ys Null"
      using c(4)
    proof (rule path_cong)
      fix b assume b: "b \<in> fst ` set ys"
      then have "b \<noteq> x" using x(3) by auto
      moreover have "b \<noteq> a" using b a(3) by auto
      ultimately show "slot ?h b = slot (heap s) b" by simp
    qed
    have "path ?h (next_node (head_m L)) (xs' @ (x, vx) # ys) Null"
      unfolding path_append using 1 2 x(1,4) nd(3) by (intro exI [of _ "Cell x"]) simp
    then show ?thesis using L(1,2) n x(1,4) a(1) nc
      by (auto simp: pos_after_def EraseAfter_Cell [OF L(1) nd(2) nd(4) c(2) x(4)] nodes_at_def
          chain_def GetSize_def untouched_def snoc xv)
  qed
qed

lemma PopFront_nodes_at:
  assumes "nodes_at s l avs" "GetSize s l = Some n"
  shows "\<exists>s'. PopFront s l = Some s' \<and> nodes_at s' l (tl avs) \<and>
      GetSize s' l = Some (if avs = [] then n else n - 1) \<and>
      untouched s {l} (fst ` set (take 1 avs)) s'"
proof -
  from assms(1) obtain L where L: "slot (objs s) l = Some L" "l < length (objs s)"
    "chain (heap s) (next_node (head_m L)) avs"
    by (blast dest: nodes_atD)
  from assms(2) L(1) have n: "size_m L = n" by (simp add: GetSize_def)
  show ?thesis
  proof (cases avs)
    case Nil
    then have "next_node (head_m L) = Null" using L(3) by (simp add: chain_def)
    then show ?thesis using PopFront_Null [OF L(1)] assms Nil by (simp add: untouched_refl)
  next
    case (Cons x ys)
    obtain a w where x: "x = (a, w)" by (cases x)
    from L(3) obtain c where c: "next_node (head_m L) = Cell a" "slot (heap s) a = Some c"
      "path (heap s) (next_node c) ys Null"
      by (auto simp: chain_def Cons x split: option.splits)
    have "nodes_at s l ([] @ (a, w) # ys)" using assms(1) by (simp add: Cons x)
    from EraseAfter_nodes_at [OF this assms(2)]
    have "\<exists>s'. EraseAfter s l (Iterator (Head l)) = Some (Iterator (ptr_of ys), s') \<and>
      nodes_at s' l ys \<and> GetSize s' l = Some (n - 1) \<and> untouched s {l} {a} s'"
      by (auto simp: pos_after_def)
    then obtain s' where
      s': "EraseAfter s l (Iterator (Head l)) = Some (Iterator (ptr_of ys), s')"
      "nodes_at s' l ys" "GetSize s' l = Some (n - 1)" "untouched s {l} {a} s'"
      by blast
    have "PopFront s l = Some s'"
      using s'(1) by (simp add: PopFront_Cell [OF L(1) c(1,2)]
          EraseAfter_Head [OF L(1) c(1,2)])
    then show ?thesis using s'(2-4) by (simp add: Cons x)
  qed
qed


lemma Clear_loop_nodes_at:
  "nodes_at s l avs \<Longrightarrow>
   \<exists>s'. Clear_loop s l = Some s' \<and> nodes_at s' l [] \<and> GetSize s' l = GetSize s l \<and>
        untouched s {l} (fst ` set avs) s' \<and> (\<forall>a \<in> fst ` set avs. slot (heap s') a = None) \<and>
        length (heap s') = length (heap s) \<and> length (objs s') = length (objs s)"
proof (induction avs arbitrary: s)
  case Nil
  then obtain L where L: "slot (objs s) l = Some L" "next_node (head_m L) = Null"
    by (auto simp: nodes_at_def chain_def split: option.splits)
  then have "Clear_loop s l = Some s" by (subst Clear_loop.simps) simp
  then show ?case using Nil by (simp add: untouched_refl)
next
  case (Cons x avs)
  obtain a w where x: "x = (a, w)" by (cases x)
  from Cons.prems obtain L where L: "slot (objs s) l = Some L" "l < length (objs s)"
    "chain (heap s) (next_node (head_m L)) ((a, w) # avs)"
    unfolding x by (blast dest: nodes_atD)
  then obtain c where c: "next_node (head_m L) = Cell a" "slot (heap s) a = Some c"
    "chain (heap s) (next_node c) avs"
    by (auto simp: chain_def split: option.splits)
  have a: "a < length (heap s)" "a \<notin> fst ` set avs"
    using chain_less [OF L(3)] chain_distinct [OF L(3)] by auto
  define s2 where "s2 = s\<lparr>heap := (heap s)[a := None],
     objs := (objs s)[l := Some (L\<lparr>head_m := (head_m L)\<lparr>next_node := next_node c\<rparr>\<rparr>)]\<rparr>"
  have step: "Clear_loop s l = Clear_loop s2 l"
    using L(1,2) c(1,2) a(1) by (subst Clear_loop.simps) (simp add: s2_def)
  have "chain (heap s2) (next_node c) avs"
    using c(3)
  proof (rule chain_cong)
    fix b assume "b \<in> fst ` set avs"
    then have "b \<noteq> a" using a(2) by auto
    then show "slot (heap s2) b = slot (heap s) b" by (simp add: s2_def)
  qed
  then have n2: "nodes_at s2 l avs" using L(2) by (simp add: nodes_at_def s2_def)
  have u2: "untouched s {l} {a} s2" by (simp add: untouched_def s2_def)
  have g2: "GetSize s2 l = GetSize s l" using L(1,2) by (simp add: GetSize_def s2_def)
  have a2: "slot (heap s2) a = None" using a(1) by (simp add: s2_def)
  from Cons.IH [OF n2] obtain s' where s': "Clear_loop s2 l = Some s'" "nodes_at s' l []"
    "GetSize s' l = GetSize s2 l" "untouched s2 {l} (fst ` set avs) s'"
    "\<forall>b \<in> fst ` set avs. slot (heap s') b = None"
    "length (heap s') = length (heap s2)" "length (objs s') = length (objs s2)"
    by blast
  have "untouched s {l} (fst ` set (x # avs)) s'"
    using u2 s'(4) by (rule untouched_trans) (auto simp: x)
  moreover have "slot (heap s') a = None"
    using s'(4) a2 a by (simp add: untouched_def s2_def)
  ultimately show ?case using step s' g2 by (simp add: x s2_def)
qed

lemma Clear_nodes_at:
  assumes "nodes_at s l avs"
  shows "\<exists>s'. Clear s l = Some s' \<and> nodes_at s' l [] \<and> GetSize s' l = Some 0 \<and>
        untouched s {l} (fst ` set avs) s' \<and> (\<forall>a \<in> fst ` set avs. slot (heap s') a = None) \<and>
        length (heap s') = length (heap s) \<and> length (objs s') = length (objs s)"
proof -
  from Clear_loop_nodes_at [OF assms] obtain s1 where s1: "Clear_loop s l = Some s1"
    "nodes_at s1 l []" "untouched s {l} (fst ` set avs) s1"
    "\<forall>a \<in> fst ` set avs. slot (heap s1) a = None"
    "length (heap s1) = length (heap s)" "length (objs s1) = length (objs s)"
    by blast
  from s1(2) obtain L where L: "slot (objs s1) l = Some L" "l < length (objs s1)"
    "next_node (head_m L) = Null"
    by (auto simp: nodes_at_def chain_def split: option.splits dest: slot_Some_less)
  have "untouched s1 {l} {} (s1\<lparr>objs := (objs s1)[l := Some (L\<lparr>size_m := 0\<rparr>)]\<rparr>)"
    by (simp add: untouched_def)
  with s1(3) have "untouched s {l} (fst ` set avs) (s1\<lparr>objs := (objs s1)[l := Some (L\<lparr>size_m := 0\<rparr>)]\<rparr>)"
    by (rule untouched_trans) auto
  then show ?thesis using s1 L
    by (simp add: Clear_def set_size_def nodes_at_def chain_def GetSize_def)
qed


lemma slot_nth: "slot xs i = Some y \<Longrightarrow> xs ! i = Some y \<and> i < length xs"
  by (auto simp: slot_def split: if_splits)

lemma swap_eq:
  assumes "slot (objs s) a = Some A" "slot (objs s) b = Some B"
  shows "swap s a b =
    Some (s\<lparr>objs := (objs s)
      [b := Some (B\<lparr>head_m := (head_m B)\<lparr>next_node := next_node (head_m A)\<rparr>, size_m := size_m A\<rparr>),
       a := Some (A\<lparr>head_m := (head_m A)\<lparr>next_node := next_node (head_m B)\<rparr>, size_m := size_m B\<rparr>)]\<rparr>)"
proof (cases "a = b")
  case True
  with assms have "B = A" by simp
  then show ?thesis using assms(1) slot_nth [OF assms(1)] True
    by (simp add: swap_def set_size_def)
next
  case False
  then show ?thesis using assms slot_Some_less [OF assms(1)] slot_Some_less [OF assms(2)]
    by (simp add: swap_def set_size_def list_update_swap [of a b])
qed

lemma swap_self:
  assumes "slot (objs s) a = Some A"
  shows "swap s a a = Some s"
  using slot_nth [OF assms] by (simp add: swap_eq [OF assms assms] list_update_same_conv)

lemma swap_nodes_at:
  assumes "nodes_at s a avs" "nodes_at s b bvs" "GetSize s a = Some n" "GetSize s b = Some m"
  shows "\<exists>s'. swap s a b = Some s' \<and> nodes_at s' a bvs \<and> nodes_at s' b avs \<and>
     GetSize s' a = Some m \<and> GetSize s' b = Some n \<and> heap s' = heap s \<and>
     length (objs s') = length (objs s) \<and> untouched s {a, b} {} s'"
proof -
  from assms(1) obtain A where A: "slot (objs s) a = Some A" "a < length (objs s)"
    "chain (heap s) (next_node (head_m A)) avs"
    by (blast dest: nodes_atD)
  from assms(2) obtain B where B: "slot (objs s) b = Some B" "b < length (objs s)"
    "chain (heap s) (next_node (head_m B)) bvs"
    by (blast dest: nodes_atD)
  have sz: "size_m A = n" "size_m B = m" using assms(3,4) A(1) B(1) by (simp_all add: GetSize_def)
  show ?thesis
  proof (cases "a = b")
    case True
    have "avs = bvs" using A B True by (auto dest: chain_unique)
    moreover have "swap s a b = Some s" using swap_self [OF A(1)] True by simp
    ultimately show ?thesis using assms True by (simp add: untouched_refl)
  next
    case False
    then show ?thesis using A B sz
      by (simp add: swap_eq [OF A(1) B(1)] nodes_at_def GetSize_def untouched_def)
  qed
qed

lemma declare_list_eq:
  "declare_list s junk = (length (objs s),
      s\<lparr>objs := objs s @ [Some \<lparr>head_m = \<lparr>value_m = None, next_node = Null\<rparr>, size_m = junk\<rparr>]\<rparr>)"
  by (simp add: declare_list_def)

lemma declare_list_nodes_at:
  assumes "declare_list s junk = (l, s')"
  shows "l = length (objs s) \<and> nodes_at s' l [] \<and> GetSize s' l = Some junk \<and>
     untouched s {} {} s' \<and> heap s' = heap s \<and> length (objs s') = Suc (length (objs s))"
  using assms by (auto simp: declare_list_def nodes_at_def chain_def GetSize_def untouched_def)

lemma SingleLinkedList_default_nodes_at:
  "\<exists>s'. SingleLinkedList_default s junk = Some (length (objs s), s') \<and>
     nodes_at s' (length (objs s)) [] \<and> GetSize s' (length (objs s)) = Some 0 \<and>
     untouched s {} {} s' \<and> heap s' = heap s \<and> length (objs s') = Suc (length (objs s))"
  by (simp add: SingleLinkedList_default_def declare_list_def set_size_def nodes_at_def chain_def
      GetSize_def untouched_def)

lemma SingleLinkedList_default_junk:
  "SingleLinkedList_default s junk = SingleLinkedList_default s 0"
  by (simp add: SingleLinkedList_default_def declare_list_def set_size_def)

lemma destroy_nodes_at:
  assumes "nodes_at s l avs"
  shows "\<exists>s'. destroy s l = Some s' \<and> slot (objs s') l = None \<and>
        untouched s {l} (fst ` set avs) s' \<and> (\<forall>a \<in> fst ` set avs. slot (heap s') a = None) \<and>
        length (heap s') = length (heap s) \<and> length (objs s') = length (objs s)"
proof -
  from Clear_nodes_at [OF assms] obtain s1 where s1: "Clear s l = Some s1"
    "untouched s {l} (fst ` set avs) s1"
    "\<forall>a \<in> fst ` set avs. slot (heap s1) a = None"
    "length (heap s1) = length (heap s)" "length (objs s1) = length (objs s)"
    by blast
  have "untouched s1 {l} {} (s1\<lparr>objs := (objs s1)[l := None]\<rparr>)"
    by (simp add: untouched_def)
  with s1(2) have "untouched s {l} (fst ` set avs) (s1\<lparr>objs := (objs s1)[l := None]\<rparr>)"
    by (rule untouched_trans) auto
  moreover have "l < length (objs s)" using assms by (blast dest: nodes_atD)
  ultimately show ?thesis using s1 by (simp add: destroy_def)
qed


lemma fresh_nodes_Nil [simp]: "fresh_nodes k [] = []"
  by (simp add: fresh_nodes_def)

lemma fresh_nodes_Cons [simp]: "fresh_nodes k (v # vs) = (k, v) # fresh_nodes (Suc k) vs"
  by (simp add: fresh_nodes_def upt_rec)

lemma map_snd_fresh_nodes [simp]: "map snd (fresh_nodes k vs) = vs"
  by (simp add: fresh_nodes_def)

lemma length_fresh_nodes [simp]: "length (fresh_nodes k vs) = length vs"
  by (simp add: fresh_nodes_def)

lemma fst_fresh_nodes: "a \<in> fst ` set (fresh_nodes k vs) \<Longrightarrow> k \<le> a"
  by (auto simp: fresh_nodes_def dest!: set_zip_leftD)

lemma MakeCopy_values_loop_chain:
  "slot (heap s) t = Some nd \<Longrightarrow> next_node nd = Null \<Longrightarrow>
   \<exists>s'. MakeCopy_values_loop s vs (Cell t) sz = Some (s', sz + of_nat (length vs)) \<and>
     objs s' = objs s \<and> length (heap s') = length (heap s) + length vs \<and>
     untouched s {} {t} s' \<and>
     (\<exists>nd'. slot (heap s') t = Some nd' \<and> value_m nd' = value_m nd \<and>
        chain (heap s') (next_node nd') (fresh_nodes (length (heap s)) vs))"
proof (induction vs arbitrary: s t nd sz)
  case Nil
  then show ?case by (simp add: untouched_refl chain_def)
next
  case (Cons v vs)
  let ?k = "length (heap s)"
  have t: "t < ?k" using Cons.prems(1) by (rule slot_Some_less)
  define s2 where "s2 = s\<lparr>heap := (heap s @ [Some \<lparr>value_m = Some v, next_node = Null\<rparr>])
     [t := Some (nd\<lparr>next_node := Cell ?k\<rparr>)]\<rparr>"
  have step: "MakeCopy_values_loop s (v # vs) (Cell t) sz =
      MakeCopy_values_loop s2 vs (Cell ?k) (sz + 1)"
    using Cons.prems(1) t by (simp add: new_Node_def s2_def)
  have k: "slot (heap s2) ?k = Some \<lparr>value_m = Some v, next_node = Null\<rparr>"
    using t by (simp add: s2_def)
  from Cons.IH [OF k, of "sz + 1"] obtain s' nd' where
    s': "MakeCopy_values_loop s2 vs (Cell ?k) (sz + 1) = Some (s', sz + 1 + of_nat (length vs))"
    "objs s' = objs s2" "length (heap s') = length (heap s2) + length vs"
    "untouched s2 {} {?k} s'" "slot (heap s') ?k = Some nd'" "value_m nd' = Some v"
    "chain (heap s') (next_node nd') (fresh_nodes (length (heap s2)) vs)"
    by auto
  have l2: "length (heap s2) = Suc ?k" by (simp add: s2_def)
  have "untouched s {} {t} s2" by (auto simp: untouched_def s2_def)
  then have u: "untouched s {} {t, ?k} s'" using s'(4) by (rule untouched_trans) auto
  have "untouched s {} {t} s'"
    using u by (auto simp: untouched_def)
  moreover have "slot (heap s') t = Some (nd\<lparr>next_node := Cell ?k\<rparr>)"
    using s'(4) t by (simp add: untouched_def l2) (simp add: s2_def)
  moreover have "chain (heap s') (Cell ?k) (fresh_nodes ?k (v # vs))"
    using s'(5-7) by (simp add: chain_def l2)
  ultimately show ?case using step s'(1-3) l2 by (simp add: s2_def add.assoc)
qed

lemma MakeCopy_loop_values:
  "chain (heap s) q ys \<Longrightarrow> slot (heap s) t = Some nd \<Longrightarrow> t \<notin> fst ` set ys \<Longrightarrow>
   MakeCopy_loop s (Iterator q) Iterator_default (Cell t) sz =
   MakeCopy_values_loop s (map snd ys) (Cell t) sz"
proof (induction ys arbitrary: s q t nd sz)
  case Nil
  then show ?case
    by (subst MakeCopy_loop.simps)
      (simp add: chain_def iter_ne_def Iterator_def Iterator_default_def)
next
  case (Cons y ys)
  obtain a v where y: "y = (a, v)" by (cases y)
  from Cons.prems(1) obtain n where n: "q = Cell a" "slot (heap s) a = Some n"
    "value_m n = Some v" "chain (heap s) (next_node n) ys"
    by (auto simp: chain_def y split: option.splits)
  let ?k = "length (heap s)"
  have t: "t < ?k" "t \<noteq> a" "t \<notin> fst ` set ys"
    using Cons.prems(2,3) by (auto simp: y dest: slot_Some_less)
  have less: "\<And>b. b \<in> fst ` set ys \<Longrightarrow> b < ?k" using n(4) by (rule chain_less)
  have a: "a < ?k" using n(2) by (rule slot_Some_less)
  define s2 where "s2 = s\<lparr>heap := (heap s @ [Some \<lparr>value_m = Some v, next_node = Null\<rparr>])
     [t := Some (nd\<lparr>next_node := Cell ?k\<rparr>)]\<rparr>"
  have step: "MakeCopy_loop s (Iterator q) Iterator_default (Cell t) sz =
      MakeCopy_loop s2 (Iterator (next_node n)) Iterator_default (Cell ?k) (sz + 1)"
    using Cons.prems(2) t(1,2) a n(1-3)
    by (subst MakeCopy_loop.simps)
      (simp add: iter_ne_def iter_deref_def iter_incr_def Iterator_def Iterator_default_def
        new_Node_def s2_def)
  have c2: "chain (heap s2) (next_node n) ys"
    using n(4)
  proof (rule chain_cong)
    fix b assume b: "b \<in> fst ` set ys"
    then have "b \<noteq> t" using t(3) by auto
    moreover have "b < ?k" using b by (rule less)
    ultimately show "slot (heap s2) b = slot (heap s) b" by (simp add: s2_def)
  qed
  have k: "slot (heap s2) ?k = Some \<lparr>value_m = Some v, next_node = Null\<rparr>"
    using t(1) by (simp add: s2_def)
  have "?k \<notin> fst ` set ys" using less by blast
  from Cons.IH [OF c2 k this, of "sz + 1"] show ?case
    using step Cons.prems(2) t(1) by (simp add: y new_Node_def s2_def)
qed


lemma MakeCopy_values_nodes_at:
  assumes "nodes_at s c []" "GetSize s c = Some 0"
  shows "\<exists>s'. MakeCopy_values s c vs = Some s' \<and>
     nodes_at s' c (fresh_nodes (length (heap s)) vs) \<and>
     GetSize s' c = Some (of_nat (length vs)) \<and> untouched s {c} {} s' \<and>
     length (objs s') = length (objs s) \<and> length (heap s') = length (heap s) + length vs"
proof (cases vs)
  case Nil
  then show ?thesis using assms by (simp add: MakeCopy_values_def untouched_refl)
next
  case (Cons v rest)
  from assms(1) obtain C where C: "slot (objs s) c = Some C" "c < length (objs s)"
    by (blast dest: nodes_atD)
  let ?k = "length (heap s)"
  define s2 where "s2 = s\<lparr>heap := heap s @ [Some \<lparr>value_m = Some v, next_node = Null\<rparr>],
     objs := (objs s)[c := Some (C\<lparr>head_m := (head_m C)\<lparr>next_node := Cell ?k\<rparr>\<rparr>)]\<rparr>"
  have k: "slot (heap s2) ?k = Some \<lparr>value_m = Some v, next_node = Null\<rparr>"
    by (simp add: s2_def)
  from MakeCopy_values_loop_chain [OF k, of rest "0 + 1"] obtain s3 nd' where
    s3: "MakeCopy_values_loop s2 rest (Cell ?k) (0 + 1) = Some (s3, 0 + 1 + of_nat (length rest))"
    "objs s3 = objs s2" "length (heap s3) = length (heap s2) + length rest"
    "untouched s2 {} {?k} s3" "slot (heap s3) ?k = Some nd'" "value_m nd' = Some v"
    "chain (heap s3) (next_node nd') (fresh_nodes (length (heap s2)) rest)"
    by auto
  have l2: "length (heap s2) = Suc ?k" by (simp add: s2_def)
  have run: "MakeCopy_values s c vs =
      set_size s3 c (0 + 1 + of_nat (length rest))"
    using C s3(1) by (simp add: MakeCopy_values_def Cons new_Node_def s2_def)
  define s4 where "s4 = s3\<lparr>objs := (objs s3)
      [c := Some (C\<lparr>head_m := (head_m C)\<lparr>next_node := Cell ?k\<rparr>,
                    size_m := 0 + 1 + of_nat (length rest)\<rparr>)]\<rparr>"
  have s4: "set_size s3 c (0 + 1 + of_nat (length rest)) = Some s4"
    using C by (simp add: set_size_def s3(2) s4_def s2_def)
  have "untouched s {c} {} s2" by (auto simp: untouched_def s2_def)
  then have "untouched s {c} {?k} s3" using s3(4) by (rule untouched_trans) auto
  then have "untouched s {c} {} s3" by (auto simp: untouched_def)
  moreover have "untouched s3 {c} {} s4" by (auto simp: untouched_def s4_def)
  ultimately have u: "untouched s {c} {} s4" by (rule untouched_trans) auto
  have "chain (heap s4) (Cell ?k) (fresh_nodes ?k (v # rest))"
    using s3(5-7) by (simp add: chain_def l2 s4_def)
  then have "nodes_at s4 c (fresh_nodes ?k vs)"
    using C(2) by (simp add: nodes_at_def s4_def s3(2) Cons s2_def)
  moreover have "GetSize s4 c = Some (of_nat (length vs))"
    using C(2) by (simp add: GetSize_def s4_def s3(2) Cons s2_def)
  moreover have "length (objs s4) = length (objs s)" "length (heap s4) = length (heap s) + length vs"
    using s3(3) by (simp_all add: s4_def s3(2) l2 Cons s2_def)
  ultimately show ?thesis using run s4 u by simp
qed

lemma MakeCopy_eq_values:
  assumes "nodes_at s r bvs" "slot (objs s) c = Some C"
  shows "MakeCopy s c r = MakeCopy_values s c (map snd bvs)"
proof (cases bvs)
  case Nil
  then show ?thesis using assms cbegin_nodes_at [OF assms(1)]
    by (simp add: MakeCopy_def MakeCopy_values_def cend_def iter_ne_def Iterator_def
        Iterator_default_def ptr_of_def)
next
  case (Cons y ys)
  obtain a v where y: "y = (a, v)" by (cases y)
  from cbegin_nodes_at [OF assms(1)] have b: "cbegin s r = Some (Iterator (Cell a))"
    "chain (heap s) (Cell a) ((a, v) # ys)"
    by (simp_all add: Cons y ptr_of_def)
  from b(2) obtain n where n: "slot (heap s) a = Some n" "value_m n = Some v"
    "chain (heap s) (next_node n) ys"
    by (auto simp: chain_def split: option.splits)
  let ?k = "length (heap s)"
  have a: "a < ?k" using n(1) by (rule slot_Some_less)
  have c: "c < length (objs s)" using assms(2) by (rule slot_Some_less)
  define s2 where "s2 = s\<lparr>heap := heap s @ [Some \<lparr>value_m = Some v, next_node = Null\<rparr>],
     objs := (objs s)[c := Some (C\<lparr>head_m := (head_m C)\<lparr>next_node := Cell ?k\<rparr>\<rparr>)]\<rparr>"
  have c2: "chain (heap s2) (next_node n) ys"
    using n(3) by (simp add: s2_def chain_append_new)
  have k: "slot (heap s2) ?k = Some \<lparr>value_m = Some v, next_node = Null\<rparr>"
    by (simp add: s2_def)
  have "?k \<notin> fst ` set ys" using chain_less [OF n(3)] by blast
  from MakeCopy_loop_values [OF c2 k this, of "0 + 1"]
  have loop: "MakeCopy_loop s2 (Iterator (next_node n)) Iterator_default (Cell ?k) (0 + 1) =
      MakeCopy_values_loop s2 (map snd ys) (Cell ?k) (0 + 1)" .
  have "MakeCopy s c r = do {
      (s3, sz) \<leftarrow> MakeCopy_loop s2 (Iterator (next_node n)) Iterator_default (Cell ?k) (0 + 1);
      set_size s3 c sz }"
    using assms(2) b(1) n(1,2) a c
    by (simp add: MakeCopy_def cend_def iter_ne_def iter_deref_def iter_incr_def Iterator_def
        Iterator_default_def new_Node_def s2_def)
  also have "\<dots> = MakeCopy_values s c (map snd bvs)"
    using assms(2) c unfolding loop
    by (simp add: MakeCopy_values_def Cons y new_Node_def s2_def)
  finally show ?thesis .
qed

lemma MakeCopy_nodes_at:
  assumes "nodes_at s r bvs" "nodes_at s c []" "GetSize s c = Some 0"
  shows "\<exists>s'. MakeCopy s c r = Some s' \<and>
     nodes_at s' c (fresh_nodes (length (heap s)) (map snd bvs)) \<and>
     GetSize s' c = Some (of_nat (length bvs)) \<and> untouched s {c} {} s' \<and>
     length (objs s') = length (objs s) \<and> length (heap s') = length (heap s) + length bvs"
proof -
  from assms(2) obtain C where "slot (objs s) c = Some C" by (blast dest: nodes_atD)
  from MakeCopy_eq_values [OF assms(1) this]
    MakeCopy_values_nodes_at [OF assms(2,3), of "map snd bvs"]
  show ?thesis by simp
qed


lemma GetSize_nodes_at: "nodes_at s l avs \<Longrightarrow> \<exists>n. GetSize s l = Some n"
  by (auto simp: nodes_at_def GetSize_def split: option.splits)

lemma untouched_new_obj:
  "untouched s (insert (length (objs s)) Ls) As s' \<Longrightarrow> untouched s Ls As s'"
  by (auto simp: untouched_def)

lemma fresh_nodes_disjoint:
  assumes "chain h p avs" "length h \<le> k"
  shows "fst ` set (fresh_nodes k vs) \<inter> fst ` set avs = {}"
proof -
  have "a < k" if "a \<in> fst ` set avs" for a
    using chain_less [OF assms(1) that] assms(2) by simp
  moreover have "k \<le> a" if "a \<in> fst ` set (fresh_nodes k vs)" for a
    using that by (rule fst_fresh_nodes)
  ultimately show ?thesis by fastforce
qed

lemma temp_swap_destroy:
  assumes l: "nodes_at s l avs" and c: "nodes_at s c cvs" and lc: "l \<noteq> c"
    and sz: "GetSize s c = Some m" and disj: "fst ` set cvs \<inter> fst ` set avs = {}"
  shows "\<exists>s3 s'. swap s l c = Some s3 \<and> destroy s3 c = Some s' \<and> nodes_at s' l cvs \<and>
     GetSize s' l = Some m \<and> untouched s {l, c} (fst ` set avs) s' \<and>
     slot (objs s') c = None \<and> (\<forall>a \<in> fst ` set avs. slot (heap s') a = None) \<and>
     length (heap s') = length (heap s) \<and> length (objs s') = length (objs s)"
proof -
  from GetSize_nodes_at [OF l] obtain n where n: "GetSize s l = Some n" by blast
  from swap_nodes_at [OF l c n sz] obtain s3 where s3: "swap s l c = Some s3"
    "nodes_at s3 l cvs" "nodes_at s3 c avs" "GetSize s3 l = Some m" "heap s3 = heap s"
    "length (objs s3) = length (objs s)" "untouched s {l, c} {} s3"
    by blast
  from destroy_nodes_at [OF s3(3)] obtain s4 where s4: "destroy s3 c = Some s4"
    "slot (objs s4) c = None" "untouched s3 {c} (fst ` set avs) s4"
    "\<forall>a \<in> fst ` set avs. slot (heap s4) a = None"
    "length (heap s4) = length (heap s3)" "length (objs s4) = length (objs s3)"
    by blast
  have "nodes_at s4 l cvs" using s3(2) s4(3) by (rule nodes_at_untouched) (use lc disj in auto)
  moreover have "GetSize s4 l = Some m" using s3(4) s4(3) by (rule GetSize_untouched) (use lc in auto)
  moreover have "untouched s {l, c} (fst ` set avs) s4"
    using s3(7) s4(3) by (rule untouched_trans) auto
  ultimately show ?thesis using s3(1,5,6) s4 by simp
qed

lemma assign_nodes_at:
  assumes l: "nodes_at s l avs" and r: "nodes_at s r bvs" and lr: "l \<noteq> r"
  shows "\<exists>s'. assign s l r = Some s' \<and>
     nodes_at s' l (fresh_nodes (length (heap s)) (map snd bvs)) \<and>
     GetSize s' l = Some (of_nat (length bvs)) \<and> untouched s {l} (fst ` set avs) s' \<and>
     (\<forall>a \<in> fst ` set avs. slot (heap s') a = None) \<and>
     length (heap s') = length (heap s) + length bvs \<and>
     length (objs s') = Suc (length (objs s)) \<and> slot (objs s') (length (objs s)) = None"
proof -
  let ?c = "length (objs s)"
  let ?cp = "fresh_nodes (length (heap s)) (map snd bvs)"
  from l r have lt: "l < ?c" "r < ?c" by (auto dest: nodes_atD)
  from SingleLinkedList_default_nodes_at [of s 0] obtain s1 where
    s1: "SingleLinkedList_default s 0 = Some (?c, s1)" "nodes_at s1 ?c []"
    "GetSize s1 ?c = Some 0" "untouched s {} {} s1" "heap s1 = heap s"
    "length (objs s1) = Suc ?c"
    by blast
  have l1: "nodes_at s1 l avs" using l s1(4) by (rule nodes_at_untouched) auto
  have r1: "nodes_at s1 r bvs" using r s1(4) by (rule nodes_at_untouched) auto
  from MakeCopy_nodes_at [OF r1 s1(2,3)] obtain s2 where s2: "MakeCopy s1 ?c r = Some s2"
    "nodes_at s2 ?c ?cp" "GetSize s2 ?c = Some (of_nat (length bvs))" "untouched s1 {?c} {} s2"
    "length (objs s2) = length (objs s1)" "length (heap s2) = length (heap s1) + length bvs"
    unfolding s1(5) by blast
  have l2: "nodes_at s2 l avs" using l1 s2(4) by (rule nodes_at_untouched) (use lt in auto)
  from l1 have "chain (heap s) (ptr_of avs) avs"
    using cbegin_nodes_at [OF l1] by (simp add: s1(5))
  then have disj: "fst ` set ?cp \<inter> fst ` set avs = {}"
    by (rule fresh_nodes_disjoint) simp
  have "l \<noteq> ?c" using lt by simp
  from temp_swap_destroy [OF l2 s2(2) this s2(3) disj] obtain s3 s4 where
    s4: "swap s2 l ?c = Some s3 \<and> destroy s3 ?c = Some s4" "nodes_at s4 l ?cp"
    "GetSize s4 l = Some (of_nat (length bvs))" "untouched s2 {l, ?c} (fst ` set avs) s4"
    "slot (objs s4) ?c = None" "\<forall>a \<in> fst ` set avs. slot (heap s4) a = None"
    "length (heap s4) = length (heap s2)" "length (objs s4) = length (objs s2)"
    by blast
  have "untouched s {?c} {} s2" using s1(4) s2(4) by (rule untouched_trans) auto
  then have "untouched s {l, ?c} (fst ` set avs) s4" using s4(4) by (rule untouched_trans) auto
  then have "untouched s (insert ?c {l}) (fst ` set avs) s4"
    by (simp add: insert_commute)
  then have u: "untouched s {l} (fst ` set avs) s4"
    by (rule untouched_new_obj)
  have "assign s l r = Some s4"
    using lr s1(1) s2(1) s4(1) by (simp add: assign_def)
  then show ?thesis using s4(2,3,5-8) s2(5,6) s1(5,6) u by simp
qed


lemma untouched_weaken:
  assumes "untouched s Ls As s'"
    "\<And>l. l \<in> Ls \<Longrightarrow> l < length (objs s) \<Longrightarrow> l \<in> Ls'"
    "\<And>a. a \<in> As \<Longrightarrow> a < length (heap s) \<Longrightarrow> a \<in> As'"
  shows "untouched s Ls' As' s'"
  using assms unfolding untouched_def by blast

lemma SingleLinkedList_values_nodes_at:
  "\<exists>s'. SingleLinkedList_values s junk vs = Some (length (objs s), s') \<and>
     nodes_at s' (length (objs s)) (fresh_nodes (length (heap s)) vs) \<and>
     GetSize s' (length (objs s)) = Some (of_nat (length vs)) \<and> untouched s {} {} s' \<and>
     length (heap s') = length (heap s) + length vs"
proof -
  let ?t = "length (objs s)"
  let ?c = "Suc (length (objs s))"
  let ?cp = "fresh_nodes (length (heap s)) vs"
  obtain s0 where s0: "declare_list s junk = (?t, s0)" by (simp add: declare_list_def)
  from declare_list_nodes_at [OF s0] have t0: "nodes_at s0 ?t []" "untouched s {} {} s0"
    "heap s0 = heap s" "length (objs s0) = ?c"
    by simp_all
  from SingleLinkedList_default_nodes_at [of s0 0] obtain s1 where
    s1: "SingleLinkedList_default s0 0 = Some (?c, s1)" "nodes_at s1 ?c []"
    "GetSize s1 ?c = Some 0" "untouched s0 {} {} s1" "heap s1 = heap s0"
    unfolding t0(4) by blast
  have t1: "nodes_at s1 ?t []" using t0(1) s1(4) by (rule nodes_at_untouched) auto
  from MakeCopy_values_nodes_at [OF s1(2,3), of vs] obtain s2 where
    s2: "MakeCopy_values s1 ?c vs = Some s2" "nodes_at s2 ?c ?cp"
    "GetSize s2 ?c = Some (of_nat (length vs))" "untouched s1 {?c} {} s2"
    "length (heap s2) = length (heap s1) + length vs"
    unfolding s1(5) t0(3) by blast
  have t2: "nodes_at s2 ?t []" using t1 s2(4) by (rule nodes_at_untouched) auto
  have "?t \<noteq> ?c" by simp
  from temp_swap_destroy [OF t2 s2(2) this s2(3)] obtain s3 s4 where
    s4: "swap s2 ?t ?c = Some s3 \<and> destroy s3 ?c = Some s4" "nodes_at s4 ?t ?cp"
    "GetSize s4 ?t = Some (of_nat (length vs))" "untouched s2 {?t, ?c} {} s4"
    "length (heap s4) = length (heap s2)"
    by auto
  have "untouched s {} {} s1" using t0(2) s1(4) by (rule untouched_trans) auto
  then have "untouched s {?c} {} s2" using s2(4) by (rule untouched_trans) auto
  then have "untouched s {?t, ?c} {} s4" using s4(4) by (rule untouched_trans) auto
  then have u: "untouched s {} {} s4" by (rule untouched_weaken) auto
  have "SingleLinkedList_values s junk vs = Some (?t, s4)"
    using s0 s1(1) s2(1) s4(1) by (simp add: SingleLinkedList_values_def)
  then show ?thesis using s4(2,3,5) s2(5) s1(5) t0(3) u by simp
qed

lemma SingleLinkedList_copy_nodes_at:
  assumes "nodes_at s r bvs"
  shows "\<exists>s'. SingleLinkedList_copy s junk r = Some (length (objs s), s') \<and>
     nodes_at s' (length (objs s)) (fresh_nodes (length (heap s)) (map snd bvs)) \<and>
     GetSize s' (length (objs s)) = Some (of_nat (length bvs)) \<and> untouched s {} {} s' \<and>
     length (heap s') = length (heap s) + length bvs"
proof -
  let ?t = "length (objs s)"
  let ?c = "Suc (length (objs s))"
  let ?cp = "fresh_nodes (length (heap s)) (map snd bvs)"
  have r: "r < ?t" using assms by (blast dest: nodes_atD)
  obtain s0 where s0: "declare_list s junk = (?t, s0)" by (simp add: declare_list_def)
  from declare_list_nodes_at [OF s0] have t0: "nodes_at s0 ?t []" "untouched s {} {} s0"
    "heap s0 = heap s" "length (objs s0) = ?c"
    by simp_all
  from SingleLinkedList_default_nodes_at [of s0 0] obtain s1 where
    s1: "SingleLinkedList_default s0 0 = Some (?c, s1)" "nodes_at s1 ?c []"
    "GetSize s1 ?c = Some 0" "untouched s0 {} {} s1" "heap s1 = heap s0"
    unfolding t0(4) by blast
  have u1: "untouched s {} {} s1" using t0(2) s1(4) by (rule untouched_trans) auto
  have t1: "nodes_at s1 ?t []" using t0(1) s1(4) by (rule nodes_at_untouched) auto
  have r1: "nodes_at s1 r bvs" using assms u1 by (rule nodes_at_untouched) auto
  have "?c \<noteq> r" using r by simp
  from assign_nodes_at [OF s1(2) r1 this] obtain s2 where
    s2: "assign s1 ?c r = Some s2" "nodes_at s2 ?c ?cp"
    "GetSize s2 ?c = Some (of_nat (length bvs))" "untouched s1 {?c} {} s2"
    "length (heap s2) = length (heap s1) + length bvs"
    unfolding s1(5) t0(3) by auto
  have t2: "nodes_at s2 ?t []" using t1 s2(4) by (rule nodes_at_untouched) auto
  have "?t \<noteq> ?c" by simp
  from temp_swap_destroy [OF t2 s2(2) this s2(3)] obtain s3 s4 where
    s4: "swap s2 ?t ?c = Some s3 \<and> destroy s3 ?c = Some s4" "nodes_at s4 ?t ?cp"
    "GetSize s4 ?t = Some (of_nat (length bvs))" "untouched s2 {?t, ?c} {} s4"
    "length (heap s4) = length (heap s2)"
    by auto
  have "untouched s {?c} {} s2" using u1 s2(4) by (rule untouched_trans) auto
  then have "untouched s {?t, ?c} {} s4" using s4(4) by (rule untouched_trans) auto
  then have u: "untouched s {} {} s4" by (rule untouched_weaken) auto
  have "SingleLinkedList_copy s junk r = Some (?t, s4)"
    using s0 s1(1) s2(1) s4(1) by (simp add: SingleLinkedList_copy_def)
  then show ?thesis using s4(2,3,5) s2(5) s1(5) t0(3) u by simp
qed


lemma example_list_0: "list_at example_store 0 [(0, 1), (1, 2), (2, 3)]"
  by (simp add: list_at_def example_store_def slot_def chain_def)

lemma example_list_1: "list_at example_store (Suc 0) [(3, 1), (4, 2)]"
  by (simp add: list_at_def example_store_def slot_def chain_def)

lemma example_list_2: "list_at example_store 2 []"
  by (simp add: list_at_def example_store_def slot_def chain_def)

lemma list_at_nodes_at: "list_at s l avs \<Longrightarrow> nodes_at s l avs"
  by (simp add: list_at_iff)

lemma push_all_nodes_at:
  "nodes_at s l avs \<Longrightarrow>
   \<exists>s' avs'. push_all s l vs = Some s' \<and> nodes_at s' l avs' \<and>
      map snd avs' = rev vs @ map snd avs"
proof (induction vs arbitrary: s avs)
  case Nil
  then show ?case by auto
next
  case (Cons v vs)
  from GetSize_nodes_at [OF Cons.prems] obtain n where "GetSize s l = Some n" by blast
  from PushFront_nodes_at [OF Cons.prems this, of v] obtain s1 where
    s1: "PushFront s l v = Some s1" "nodes_at s1 l ((length (heap s), v) # avs)"
    by blast
  from Cons.IH [OF s1(2)] obtain s' avs' where "push_all s1 l vs = Some s'"
    "nodes_at s' l avs'" "map snd avs' = rev vs @ map snd ((length (heap s), v) # avs)"
    by blast
  then show ?case using s1(1) by auto
qed


lemma example_list_3: "list_at example_store 3 [(5, 1), (6, 2), (7, 4)]"
  by (simp add: list_at_def example_store_def slot_def chain_def)

lemma InsertAfter_before_begin_PushFront:
  "InsertAfter s l (before_begin l) v =
     map_option (\<lambda>s'. (Iterator (Cell (length (heap s))), s')) (PushFront s l v)"
proof (cases "slot (objs s) l")
  case None
  then show ?thesis by (simp add: InsertAfter_def PushFront_def before_begin_def Iterator_def)
next
  case (Some L)
  show ?thesis by (simp add: before_begin_def InsertAfter_Head [OF Some] PushFront_eq [OF Some])
qed

lemma iter_deref_nodes_at_front:
  "nodes_at s l ((a, v) # avs) \<Longrightarrow> iter_deref s (Iterator (Cell a)) = Some v"
  by (auto simp: nodes_at_def chain_def iter_deref_def Iterator_def split: option.splits)


lemma lex_less_Nil_iff: "lex_less [] ys \<longleftrightarrow> ys \<noteq> []"
  by (cases ys) auto

lemma lex_less_prefix: "lex_less xs (xs @ y # ys)"
  by (induction xs) auto


lemma list_at_GetSize: "list_at s l avs \<Longrightarrow> \<exists>n. GetSize s l = Some n \<and> unat n = length avs"
  by (auto simp: list_at_def GetSize_def split: option.splits)


lemma list_atI:
  "nodes_at s l avs \<Longrightarrow> GetSize s l = Some n \<Longrightarrow> unat n = length avs \<Longrightarrow> list_at s l avs"
  by (simp add: list_at_iff)

lemma list_at_untouched:
  assumes "list_at s l avs" "untouched s Ls As s'" "l \<notin> Ls" "fst ` set avs \<inter> As = {}"
  shows "list_at s' l avs"
proof -
  from list_at_GetSize [OF assms(1)] obtain n where n: "GetSize s l = Some n" "unat n = length avs"
    by blast
  have "nodes_at s' l avs"
    using list_at_nodes_at [OF assms(1)] assms(2-4) by (rule nodes_at_untouched)
  moreover have "GetSize s' l = Some n" using n(1) assms(2,3) by (rule GetSize_untouched)
  ultimately show ?thesis using n(2) by (rule list_atI)
qed

lemma assign_self: "assign s l l = Some s"
  by (simp add: assign_def)

lemma assign_list_at:
  assumes "list_at s l avs" "list_at s r bvs" "l \<noteq> r"
  shows "\<exists>s'. assign s l r = Some s' \<and>
     list_at s' l (fresh_nodes (length (heap s)) (map snd bvs)) \<and>
     GetSize s' l = GetSize s r \<and> untouched s {l} (fst ` set avs) s' \<and>
     (\<forall>a \<in> fst ` set avs. slot (heap s') a = None)"
proof -
  from list_at_GetSize [OF assms(2)] obtain m where m: "GetSize s r = Some m" "unat m = length bvs"
    by blast
  from assign_nodes_at [OF list_at_nodes_at [OF assms(1)] list_at_nodes_at [OF assms(2)] assms(3)]
  obtain s' where s': "assign s l r = Some s'"
    "nodes_at s' l (fresh_nodes (length (heap s)) (map snd bvs))"
    "GetSize s' l = Some (of_nat (length bvs))" "untouched s {l} (fst ` set avs) s'"
    "\<forall>a \<in> fst ` set avs. slot (heap s') a = None"
    by blast
  have "of_nat (length bvs) = m" using m(2) [symmetric] by simp
  then have g: "GetSize s' l = Some m" using s'(3) by simp
  have "list_at s' l (fresh_nodes (length (heap s)) (map snd bvs))"
    using s'(2) g by (rule list_atI) (simp add: m(2))
  then show ?thesis using s'(1,4,5) g m(1) by simp
qed


lemma size_agrees_list_at: "list_at s l avs \<Longrightarrow> size_agrees s l"
  using list_at_GetSize [of s l avs] elements_nodes_at [of s l avs]
  by (auto simp: size_agrees_def list_at_iff)

lemma unat_pred: "unat (n :: size_t) = Suc k \<Longrightarrow> unat (n - 1) = k"
proof -
  assume a: "unat n = Suc k"
  then have "n \<noteq> 0" by auto
  then have "unat (n - 1) = unat n - 1" by (rule unat_minus_one)
  with a show ?thesis by simp
qed

lemma InsertAfter_list_at:
  assumes "list_at s l (xs @ ys)" "Suc (length (xs @ ys)) < 2 ^ 64"
  shows "\<exists>it s'. InsertAfter s l (pos_after l xs) v = Some (it, s') \<and>
      list_at s' l (xs @ (length (heap s), v) # ys)"
proof -
  from list_at_GetSize [OF assms(1)] obtain n where
    n: "GetSize s l = Some n" "unat n = length (xs @ ys)"
    by blast
  from InsertAfter_nodes_at [OF list_at_nodes_at [OF assms(1)] n(1), of v] obtain s' where
    s': "InsertAfter s l (pos_after l xs) v = Some (Iterator (Cell (length (heap s))), s')"
    "nodes_at s' l (xs @ (length (heap s), v) # ys)" "GetSize s' l = Some (n + 1)"
    by blast
  have "unat (n + 1) = length (xs @ (length (heap s), v) # ys)"
    using unat_succ [of n] n(2) assms(2) by simp
  with s'(2,3) have "list_at s' l (xs @ (length (heap s), v) # ys)" by (rule list_atI)
  with s'(1) show ?thesis by blast
qed

lemma EraseAfter_list_at:
  assumes "list_at s l (xs @ y # ys)"
  shows "\<exists>it s'. EraseAfter s l (pos_after l xs) = Some (it, s') \<and> list_at s' l (xs @ ys)"
proof -
  obtain a w where y: "y = (a, w)" by (cases y)
  from list_at_GetSize [OF assms] obtain n where
    n: "GetSize s l = Some n" "unat n = length (xs @ y # ys)"
    by blast
  from EraseAfter_nodes_at [OF list_at_nodes_at [OF assms [unfolded y]] n(1)] obtain s' where
    s': "EraseAfter s l (pos_after l xs) = Some (Iterator (ptr_of ys), s')"
    "nodes_at s' l (xs @ ys)" "GetSize s' l = Some (n - 1)"
    by blast
  have "unat (n - 1) = length (xs @ ys)" using n(2) by (intro unat_pred) simp
  with s'(2,3) have "list_at s' l (xs @ ys)" by (rule list_atI)
  with s'(1) show ?thesis by blast
qed

lemma PopFront_list_at:
  assumes "list_at s l avs"
  shows "\<exists>s'. PopFront s l = Some s' \<and> list_at s' l (tl avs)"
proof -
  from list_at_GetSize [OF assms] obtain n where n: "GetSize s l = Some n" "unat n = length avs"
    by blast
  from PopFront_nodes_at [OF list_at_nodes_at [OF assms] n(1)] obtain s' where
    s': "PopFront s l = Some s'" "nodes_at s' l (tl avs)"
    "GetSize s' l = Some (if avs = [] then n else n - 1)"
    by blast
  have "unat (if avs = [] then n else n - 1) = length (tl avs)"
  proof (cases avs)
    case Nil
    then show ?thesis using n(2) by simp
  next
    case (Cons x r)
    then have "unat (n - 1) = length r" using n(2) by (intro unat_pred) simp
    then show ?thesis using Cons by simp
  qed
  with s'(2,3) have "list_at s' l (tl avs)" by (rule list_atI)
  with s'(1) show ?thesis by blast
qed

lemma Clear_list_at:
  assumes "list_at s l avs"
  shows "\<exists>s'. Clear s l = Some s' \<and> list_at s' l []"
proof -
  from Clear_nodes_at [OF list_at_nodes_at [OF assms]] obtain s' where
    s': "Clear s l = Some s'" "nodes_at s' l []" "GetSize s' l = Some 0"
    by blast
  from s'(2,3) have "list_at s' l []" by (rule list_atI) simp
  with s'(1) show ?thesis by blast
qed

lemma swap_list_at:
  assumes "list_at s a avs" "list_at s b bvs"
  shows "\<exists>s'. swap s a b = Some s' \<and> list_at s' a bvs \<and> list_at s' b avs"
proof -
  from list_at_GetSize [OF assms(1)] obtain n where n: "GetSize s a = Some n" "unat n = length avs"
    by blast
  from list_at_GetSize [OF assms(2)] obtain m where m: "GetSize s b = Some m" "unat m = length bvs"
    by blast
  from swap_nodes_at [OF list_at_nodes_at [OF assms(1)] list_at_nodes_at [OF assms(2)] n(1) m(1)]
  obtain s' where s': "swap s a b = Some s'"
    "nodes_at s' a bvs" "nodes_at s' b avs" "GetSize s' a = Some m" "GetSize s' b = Some n"
    by blast
  then show ?thesis using n(2) m(2) by (simp add: list_at_iff)
qed

lemma SingleLinkedList_copy_list_at:
  assumes "list_at s r bvs"
  shows "\<exists>s'. SingleLinkedList_copy s junk r = Some (length (objs s), s') \<and>
     list_at s' (length (objs s)) (fresh_nodes (length (heap s)) (map snd bvs)) \<and>
     list_at s' r bvs \<and> untouched s {} {} s'"
proof -
  from list_at_GetSize [OF assms] obtain m where m: "GetSize s r = Some m" "unat m = length bvs"
    by blast
  from SingleLinkedList_copy_nodes_at [OF list_at_nodes_at [OF assms], of junk] obtain s' where
    s': "SingleLinkedList_copy s junk r = Some (length (objs s), s')"
    "nodes_at s' (length (objs s)) (fresh_nodes (length (heap s)) (map snd bvs))"
    "GetSize s' (length (objs s)) = Some (of_nat (length bvs))" "untouched s {} {} s'"
    by blast
  have "of_nat (length bvs) = m" using m(2) [symmetric] by simp
  then have "unat (of_nat (length bvs) :: size_t) = length (fresh_nodes (length (heap s)) (map snd bvs))"
    using m(2) by simp
  with s'(2,3) have "list_at s' (length (objs s)) (fresh_nodes (length (heap s)) (map snd bvs))"
    by (rule list_atI)
  moreover have "list_at s' r bvs" using assms s'(4) by (rule list_at_untouched) auto
  ultimately show ?thesis using s'(1,4) by blast
qed

lemma SingleLinkedList_values_list_at:
  assumes "length vs < 2 ^ 64"
  shows "\<exists>s'. SingleLinkedList_values s junk vs = Some (length (objs s), s') \<and>
     list_at s' (length (objs s)) (fresh_nodes (length (heap s)) vs) \<and> untouched s {} {} s'"
proof -
  from SingleLinkedList_values_nodes_at [of s junk vs] obtain s' where
    s': "SingleLinkedList_values s junk vs = Some (length (objs s), s')"
    "nodes_at s' (length (objs s)) (fresh_nodes (length (heap s)) vs)"
    "GetSize s' (length (objs s)) = Some (of_nat (length vs))" "untouched s {} {} s'"
    by blast
  have "unat (of_nat (length vs) :: size_t) = length (fresh_nodes (length (heap s)) vs)"
    using assms by (simp add: unat_of_nat)
  with s'(2,3) have "list_at s' (length (objs s)) (fresh_nodes (length (heap s)) vs)"
    by (rule list_atI)
  then show ?thesis using s'(1,4) by blast
qed

lemma SingleLinkedList_default_list_at:
  "\<exists>s'. SingleLinkedList_default s junk = Some (length (objs s), s') \<and>
     list_at s' (length (objs s)) [] \<and> untouched s {} {} s'"
proof -
  from SingleLinkedList_default_nodes_at [of s junk] obtain s' where
    s': "SingleLinkedList_default s junk = Some (length (objs s), s')"
    "nodes_at s' (length (objs s)) []" "GetSize s' (length (objs s)) = Some 0"
    "untouched s {} {} s'"
    by blast
  from s'(2,3) have "list_at s' (length (objs s)) []" by (rule list_atI) simp
  then show ?thesis using s'(1,4) by blast
qed

lemma assign_list_at_any:
  assumes "list_at s l avs" "list_at s r bvs"
  shows "\<exists>s' cvs. assign s l r = Some s' \<and> list_at s' l cvs \<and> map snd cvs = map snd bvs"
proof (cases "l = r")
  case True
  then have "avs = bvs" using assms by (auto simp: list_at_def split: option.splits dest: chain_unique)
  then show ?thesis using assms True assign_self [of s l] by auto
next
  case False
  from assign_list_at [OF assms False] obtain s' where "assign s l r = Some s'"
    "list_at s' l (fresh_nodes (length (heap s)) (map snd bvs))"
    by blast
  then show ?thesis by (intro exI [of _ s'] exI [of _ "fresh_nodes (length (heap s)) (map snd bvs)"]) simp
qed


lemma advance_chain:
  "chain (heap s) p avs \<Longrightarrow>
   advance s (Iterator p) k =
     (if k \<le> length avs then Some (Iterator (ptr_of (drop k avs))) else None)"
proof (induction k arbitrary: p avs)
  case 0
  then show ?case using chain_ptr_of [of "heap s" p avs] by simp
next
  case (Suc k)
  show ?case
  proof (cases avs)
    case Nil
    then have "p = Null" using Suc.prems by (simp add: chain_def)
    then show ?thesis using Nil by (simp add: iter_incr_def Iterator_def)
  next
    case (Cons x r)
    obtain a v where x: "x = (a, v)" by (cases x)
    from Suc.prems obtain n where n: "p = Cell a" "slot (heap s) a = Some n"
      "chain (heap s) (next_node n) r"
      by (auto simp: chain_def Cons x split: option.splits)
    have "iter_incr s (Iterator p) = Some (Iterator (next_node n))"
      using n(1,2) by (simp add: iter_incr_def Iterator_def)
    then show ?thesis using Suc.IH [OF n(3)] Cons by simp
  qed
qed

lemma ptr_of_drop:
  "k < length avs \<Longrightarrow> ptr_of (drop k avs) = Cell (fst (avs ! k))"
  by (auto simp: ptr_of_def Cons_nth_drop_Suc [symmetric] split: list.splits prod.splits)

lemma advance_nodes_at:
  assumes "nodes_at s l avs"
  shows "advance s (before_begin l) k =
     (if k \<le> length avs then Some (pos_after l (take k avs))
      else if k = Suc (length avs) then Some (Iterator Null) else None)"
proof (cases k)
  case 0
  then show ?thesis by (simp add: before_begin_def pos_after_def)
next
  case (Suc j)
  from assms obtain L where L: "slot (objs s) l = Some L"
    "chain (heap s) (next_node (head_m L)) avs"
    by (blast dest: nodes_atD)
  have "iter_incr s (Iterator (Head l)) = Some (Iterator (next_node (head_m L)))"
    using L(1) by (simp add: iter_incr_def Iterator_def)
  then have adv: "advance s (before_begin l) k =
      (if j \<le> length avs then Some (Iterator (ptr_of (drop j avs))) else None)"
    using advance_chain [OF L(2), of j] by (simp add: Suc before_begin_def)
  show ?thesis
  proof (cases "j < length avs")
    case True
    then have "take (Suc j) avs \<noteq> []" "last (take (Suc j) avs) = avs ! j"
      by (auto simp: take_Suc_conv_app_nth)
    then show ?thesis using adv True by (simp add: Suc pos_after_def ptr_of_drop)
  next
    case False
    then show ?thesis using adv by (auto simp: Suc ptr_of_def)
  qed
qed

lemma InsertAfter_Null: "InsertAfter s l (Iterator Null) v = None"
  by (simp add: InsertAfter_def Iterator_def)

lemma EraseAfter_Null: "EraseAfter s l (Iterator Null) = None"
  by (simp add: EraseAfter_def Iterator_def)

lemma EraseAfter_last:
  assumes "nodes_at s l avs"
  shows "EraseAfter s l (pos_after l avs) = None"
proof -
  from assms obtain L where L: "slot (objs s) l = Some L"
    "chain (heap s) (next_node (head_m L)) avs"
    by (blast dest: nodes_atD)
  show ?thesis
  proof (cases avs rule: rev_cases)
    case Nil
    then have "next_node (head_m L) = Null" using L(2) by (simp add: chain_def)
    then show ?thesis using L(1) Nil
      by (simp add: EraseAfter_def pos_after_def Iterator_def)
  next
    case (snoc xs xv)
    obtain x vx where xv: "xv = (x, vx)" by (cases xv)
    from L(2) obtain m where "path (heap s) (next_node (head_m L)) xs m"
      "path (heap s) m [(x, vx)] Null"
      unfolding chain_def snoc xv by (auto simp: path_append)
    then obtain nd where "slot (heap s) x = Some nd" "next_node nd = Null"
      by (auto split: option.splits)
    then show ?thesis
      by (simp add: EraseAfter_def pos_after_def Iterator_def snoc xv)
  qed
qed


lemma mutate_nodes_at:
  assumes "nodes_at s l avs" "mutate s l m = Some s'"
  shows "\<exists>avs'. nodes_at s' l avs' \<and> untouched s {l} (fst ` set avs) s' \<and>
     (\<forall>a \<in> fst ` set avs'. a \<in> fst ` set avs \<or> length (heap s) \<le> a)"
proof -
  from GetSize_nodes_at [OF assms(1)] obtain n where n: "GetSize s l = Some n" by blast
  show ?thesis
  proof (cases m)
    case (Do_PushFront v)
    from PushFront_nodes_at [OF assms(1) n, of v] assms(2) Do_PushFront
    have "nodes_at s' l ((length (heap s), v) # avs)" "untouched s {l} {} s'" by auto
    moreover from this(2) have "untouched s {l} (fst ` set avs) s'"
      by (rule untouched_weaken) auto
    ultimately show ?thesis by (intro exI [of _ "(length (heap s), v) # avs"]) auto
  next
    case Do_PopFront
    from PopFront_nodes_at [OF assms(1) n] assms(2) Do_PopFront
    have "nodes_at s' l (tl avs)" "untouched s {l} (fst ` set (take 1 avs)) s'" by auto
    moreover from this(2) have "untouched s {l} (fst ` set avs) s'"
      by (rule untouched_weaken) (auto dest: in_set_takeD)
    moreover have "set (tl avs) \<subseteq> set avs" by (cases avs) auto
    ultimately show ?thesis by (intro exI [of _ "tl avs"]) auto
  next
    case (Do_InsertAfter k v)
    have k: "k \<le> length avs"
    proof (rule ccontr)
      assume "\<not> k \<le> length avs"
      then show False
        using assms(2) advance_nodes_at [OF assms(1), of k]
        by (auto simp: Do_InsertAfter InsertAfter_Null split: if_splits)
    qed
    have split: "nodes_at s l (take k avs @ drop k avs)" using assms(1) by simp
    from InsertAfter_nodes_at [OF split n, of v] assms(2) k
    have "nodes_at s' l (take k avs @ (length (heap s), v) # drop k avs)"
      "untouched s {l} (fst ` set (take k avs)) s'"
      by (auto simp: Do_InsertAfter advance_nodes_at [OF assms(1)])
    moreover from this(2) have "untouched s {l} (fst ` set avs) s'"
      by (rule untouched_weaken) (auto dest: in_set_takeD)
    ultimately show ?thesis
      by (intro exI [of _ "take k avs @ (length (heap s), v) # drop k avs"])
        (auto dest: in_set_takeD in_set_dropD)
  next
    case (Do_EraseAfter k)
    have k: "k < length avs"
    proof (rule ccontr)
      assume "\<not> k < length avs"
      then show False
        using assms(2) advance_nodes_at [OF assms(1), of k] EraseAfter_last [OF assms(1)]
        by (auto simp: Do_EraseAfter EraseAfter_Null split: if_splits)
    qed
    obtain a w where aw: "avs ! k = (a, w)" by (cases "avs ! k")
    have avs: "avs = take k avs @ (a, w) # drop (Suc k) avs"
      using id_take_nth_drop [OF k] aw by simp
    have split: "nodes_at s l (take k avs @ (a, w) # drop (Suc k) avs)"
      using assms(1) avs by simp
    from EraseAfter_nodes_at [OF split n] assms(2) k
    have "nodes_at s' l (take k avs @ drop (Suc k) avs)"
      "untouched s {l} (fst ` set (take k avs @ [(a, w)])) s'"
      by (auto simp: Do_EraseAfter advance_nodes_at [OF assms(1)])
    moreover from this(2) have "untouched s {l} (fst ` set avs) s'"
    proof (rule untouched_weaken)
      fix b assume "b \<in> fst ` set (take k avs @ [(a, w)])"
      then have "b \<in> fst ` set (take k avs @ (a, w) # drop (Suc k) avs)" by auto
      then show "b \<in> fst ` set avs" using avs by simp
    qed
    ultimately show ?thesis
      by (intro exI [of _ "take k avs @ drop (Suc k) avs"]) (auto dest: in_set_takeD in_set_dropD)
  next
    case Do_Clear
    from Clear_nodes_at [OF assms(1)] assms(2) Do_Clear
    have "nodes_at s' l []" "untouched s {l} (fst ` set avs) s'" by auto
    then show ?thesis by (intro exI [of _ "[]"]) auto
  qed
qed

lemma mutate_all_frame:
  "nodes_at s c cvs \<Longrightarrow> nodes_at s l avs \<Longrightarrow> c \<noteq> l \<Longrightarrow>
   fst ` set cvs \<inter> fst ` set avs = {} \<Longrightarrow> mutate_all s c ms = Some t \<Longrightarrow>
   nodes_at t l avs"
proof (induction ms arbitrary: s cvs)
  case Nil
  then show ?case by simp
next
  case (Cons m ms)
  from Cons.prems(5) obtain s1 where s1: "mutate s c m = Some s1" "mutate_all s1 c ms = Some t"
    by (auto split: bind_splits)
  from mutate_nodes_at [OF Cons.prems(1) s1(1)] obtain cvs' where
    c': "nodes_at s1 c cvs'" "untouched s {c} (fst ` set cvs) s1"
    "\<forall>a \<in> fst ` set cvs'. a \<in> fst ` set cvs \<or> length (heap s) \<le> a"
    by blast
  have l1: "nodes_at s1 l avs"
    using Cons.prems(2) c'(2) by (rule nodes_at_untouched) (use Cons.prems(3,4) in auto)
  have old: "\<And>a. a \<in> fst ` set avs \<Longrightarrow> a < length (heap s)"
    using Cons.prems(2) by (auto dest!: nodes_atD dest: chain_less)
  have "fst ` set cvs' \<inter> fst ` set avs = {}"
  proof (rule ccontr)
    assume "fst ` set cvs' \<inter> fst ` set avs \<noteq> {}"
    then obtain a where a: "a \<in> fst ` set cvs'" "a \<in> fst ` set avs" by blast
    from a(1) c'(3) have "a \<in> fst ` set cvs \<or> length (heap s) \<le> a" by blast
    then show False using a(2) old [OF a(2)] Cons.prems(4) by auto
  qed
  with c'(1) l1 Cons.prems(3) show ?case using s1(2) by (rule Cons.IH)
qed

section \<open>The claims\<close>

text \<open>
  C10. \<^verbatim>\<open>end()\<close> and \<^verbatim>\<open>cend()\<close> of every list return the default-constructed iterator, whose
  node pointer is null. Hence the end iterators of any two lists compare equal, and
  \<^verbatim>\<open>begin()\<close> of an empty list compares equal to \<^verbatim>\<open>end()\<close> of any other list: the end marker
  is one shared value, not tied to the list it came from.
\<close>

theorem end_marker_shared:
  "end_iter l = Iterator_default \<and> cend l = Iterator_default \<and>
   node_m (end_iter l) = Null \<and>
   iter_eq (end_iter l) (end_iter l') \<and> iter_eq (cend l) (cend l') \<and>
   iter_eq (end_iter l) (cend l') \<and> \<not> iter_ne (end_iter l) (end_iter l') \<and>
   (list_at s l [] \<longrightarrow>
      (\<exists>b. begin_iter s l = Some b \<and> iter_eq b (end_iter l') \<and> iter_eq b (cend l')))"
  by (auto simp: end_iter_def cend_def Iterator_default_def iter_eq_def iter_ne_def
      begin_iter_def Iterator_def list_at_def chain_def split: option.splits)

theorem end_marker_shared_witness:
  "list_at \<lparr>objs = [Some \<lparr>head_m = \<lparr>value_m = None, next_node = Null\<rparr>, size_m = 0\<rparr>],
            heap = [Some \<lparr>value_m = Some (7::int), next_node = Null\<rparr>]\<rparr> 0 [] \<and>
   (\<exists>b. begin_iter \<lparr>objs = [Some \<lparr>head_m = \<lparr>value_m = None, next_node = Null\<rparr>, size_m = 0\<rparr>],
            heap = [Some \<lparr>value_m = Some (7::int), next_node = Null\<rparr>]\<rparr> 0 = Some b \<and>
        iter_eq b (end_iter 5) \<and> iter_eq b (cend 5))"
  using end_marker_shared [of 0 5
      "\<lparr>objs = [Some \<lparr>head_m = \<lparr>value_m = None, next_node = Null\<rparr>, size_m = 0\<rparr>],
        heap = [Some \<lparr>value_m = Some (7::int), next_node = Null\<rparr>]\<rparr>"]
  by (simp add: list_at_def slot_def chain_def)

text \<open>
  C9. For a list in its representation (\<open>list_at\<close>), the three conditions agree:
  \<^verbatim>\<open>IsEmpty()\<close> returns true; \<^verbatim>\<open>GetSize()\<close> returns 0; \<^verbatim>\<open>begin()\<close> compares equal to
  \<^verbatim>\<open>end()\<close>.
\<close>

theorem empty_conditions_agree:
  assumes "list_at s l avs"
  shows "\<exists>e n b. IsEmpty s l = Some e \<and> GetSize s l = Some n \<and> begin_iter s l = Some b \<and>
           (e \<longleftrightarrow> n = 0) \<and> (n = 0 \<longleftrightarrow> iter_eq b (end_iter l)) \<and>
           (e \<longleftrightarrow> iter_eq b (end_iter l))"
proof -
  from assms obtain L where L: "slot (objs s) l = Some L"
    "chain (heap s) (next_node (head_m L)) avs" "unat (size_m L) = length avs"
    by (blast dest: list_atD)
  have "size_m L = 0 \<longleftrightarrow> avs = []" using L(3) by (auto simp: unat_eq_0 [symmetric])
  moreover have "next_node (head_m L) = Null \<longleftrightarrow> avs = []"
    using L(2) by (cases avs) (auto simp: chain_def)
  ultimately show ?thesis using L(1)
    by (simp add: IsEmpty_def GetSize_def begin_iter_def end_iter_def Iterator_def
        Iterator_default_def iter_eq_def)
qed

theorem empty_conditions_agree_witness:
  "list_at \<lparr>objs = [Some \<lparr>head_m = \<lparr>value_m = None, next_node = Cell 0\<rparr>, size_m = 1\<rparr>],
            heap = [Some \<lparr>value_m = Some (7::int), next_node = Null\<rparr>]\<rparr> 0 [(0, 7)] \<and>
   (\<exists>e n b. IsEmpty \<lparr>objs = [Some \<lparr>head_m = \<lparr>value_m = None, next_node = Cell 0\<rparr>, size_m = 1\<rparr>],
            heap = [Some \<lparr>value_m = Some (7::int), next_node = Null\<rparr>]\<rparr> 0 = Some e \<and>
      GetSize \<lparr>objs = [Some \<lparr>head_m = \<lparr>value_m = None, next_node = Cell 0\<rparr>, size_m = 1\<rparr>],
            heap = [Some \<lparr>value_m = Some (7::int), next_node = Null\<rparr>]\<rparr> 0 = Some n \<and>
      begin_iter \<lparr>objs = [Some \<lparr>head_m = \<lparr>value_m = None, next_node = Cell 0\<rparr>, size_m = 1\<rparr>],
            heap = [Some \<lparr>value_m = Some (7::int), next_node = Null\<rparr>]\<rparr> 0 = Some b \<and>
      (e \<longleftrightarrow> n = 0) \<and> (n = 0 \<longleftrightarrow> iter_eq b (end_iter 0)) \<and> (e \<longleftrightarrow> iter_eq b (end_iter 0)))"
proof -
  have h: "list_at \<lparr>objs = [Some \<lparr>head_m = \<lparr>value_m = None, next_node = Cell 0\<rparr>, size_m = 1\<rparr>],
            heap = [Some \<lparr>value_m = Some (7::int), next_node = Null\<rparr>]\<rparr> 0 [(0, 7)]"
    by (simp add: list_at_def slot_def chain_def)
  show ?thesis using h empty_conditions_agree [OF h] by simp
qed

text \<open>
  C2. Calling \<^verbatim>\<open>PushFront(v1)\<close>, ..., \<^verbatim>\<open>PushFront(vn)\<close> on an initially empty list (one just
  default-constructed in any store, or any list whose sentinel link is null) gives a list
  whose front-to-back traversal yields \<open>vn, ..., v1\<close>.
\<close>

theorem push_front_reverse:
  "(\<exists>l s0 s'. SingleLinkedList_default s junk = Some (l, s0) \<and>
       push_all s0 l vs = Some s' \<and> elements s' l = Some (rev vs)) \<and>
   (nodes_at s l [] \<longrightarrow> (\<exists>s'. push_all s l vs = Some s' \<and> elements s' l = Some (rev vs)))"
proof
  from SingleLinkedList_default_nodes_at [of s junk] obtain s0 where
    s0: "SingleLinkedList_default s junk = Some (length (objs s), s0)"
    "nodes_at s0 (length (objs s)) []"
    by blast
  from push_all_nodes_at [OF s0(2), of vs] obtain s' avs' where
    "push_all s0 (length (objs s)) vs = Some s'" "nodes_at s' (length (objs s)) avs'"
    "map snd avs' = rev vs"
    by auto
  then have "push_all s0 (length (objs s)) vs = Some s' \<and> elements s' (length (objs s)) = Some (rev vs)"
    by (simp add: elements_nodes_at)
  with s0(1) show "\<exists>l s0 s'. SingleLinkedList_default s junk = Some (l, s0) \<and>
       push_all s0 l vs = Some s' \<and> elements s' l = Some (rev vs)"
    by blast
next
  show "nodes_at s l [] \<longrightarrow> (\<exists>s'. push_all s l vs = Some s' \<and> elements s' l = Some (rev vs))"
  proof
    assume "nodes_at s l []"
    from push_all_nodes_at [OF this, of vs] obtain s' avs' where
      "push_all s l vs = Some s'" "nodes_at s' l avs'" "map snd avs' = rev vs"
      by auto
    then show "\<exists>s'. push_all s l vs = Some s' \<and> elements s' l = Some (rev vs)"
      by (auto simp: elements_nodes_at)
  qed
qed

theorem push_front_reverse_witness:
  "nodes_at example_store 2 [] \<and>
   (\<exists>s'. push_all example_store 2 [3, 2, 1] = Some s' \<and> elements s' 2 = Some [1, 2, 3])"
proof -
  have h: "nodes_at example_store 2 []"
    by (simp add: nodes_at_def example_store_def slot_def chain_def)
  show ?thesis using h push_front_reverse [of example_store 0 "[3, 2, 1]" 2] by simp
qed

text \<open>
  C4. \<^verbatim>\<open>InsertAfter(before_begin(), v)\<close> leaves the store exactly as \<^verbatim>\<open>PushFront(v)\<close> does
  (in every store; both are undefined when the list object is not alive). On a list with
  nodes \<open>avs\<close> and size \<open>n\<close> both succeed, \<open>v\<close> becomes the front element followed by the
  old elements in order, \<^verbatim>\<open>size_\<close> becomes \<open>n + 1\<close>, and the returned iterator references
  the new node: it equals \<^verbatim>\<open>begin()\<close> and dereferences to \<open>v\<close>.
\<close>

theorem insert_after_before_begin:
  "InsertAfter s l (before_begin l) v =
     map_option (\<lambda>s'. (Iterator (Cell (length (heap s))), s')) (PushFront s l v) \<and>
   (nodes_at s l avs \<and> GetSize s l = Some n \<longrightarrow>
     (\<exists>it s'. InsertAfter s l (before_begin l) v = Some (it, s') \<and>
        PushFront s l v = Some s' \<and>
        nodes_at s' l ((length (heap s), v) # avs) \<and>
        elements s' l = Some (v # map snd avs) \<and>
        GetSize s' l = Some (n + 1) \<and>
        begin_iter s' l = Some it \<and> iter_deref s' it = Some v))"
proof (intro conjI impI)
  show "InsertAfter s l (before_begin l) v =
     map_option (\<lambda>s'. (Iterator (Cell (length (heap s))), s')) (PushFront s l v)"
    by (rule InsertAfter_before_begin_PushFront)
next
  assume a: "nodes_at s l avs \<and> GetSize s l = Some n"
  let ?k = "length (heap s)"
  from a PushFront_nodes_at [of s l avs n v] obtain s' where
    s': "PushFront s l v = Some s'" "nodes_at s' l ((?k, v) # avs)" "GetSize s' l = Some (n + 1)"
    by blast
  have "InsertAfter s l (before_begin l) v = Some (Iterator (Cell ?k), s')"
    using s'(1) by (simp add: InsertAfter_before_begin_PushFront)
  moreover have "elements s' l = Some (v # map snd avs)"
    using elements_nodes_at [OF s'(2)] by simp
  moreover have "begin_iter s' l = Some (Iterator (Cell ?k))"
    using begin_iter_nodes_at [OF s'(2)] by (simp add: ptr_of_def)
  moreover have "iter_deref s' (Iterator (Cell ?k)) = Some v"
    using s'(2) by (rule iter_deref_nodes_at_front)
  ultimately show "\<exists>it s'. InsertAfter s l (before_begin l) v = Some (it, s') \<and>
        PushFront s l v = Some s' \<and>
        nodes_at s' l ((length (heap s), v) # avs) \<and>
        elements s' l = Some (v # map snd avs) \<and>
        GetSize s' l = Some (n + 1) \<and>
        begin_iter s' l = Some it \<and> iter_deref s' it = Some v"
    using s' by blast
qed

theorem insert_after_before_begin_witness:
  "nodes_at example_store 0 [(0, 1), (1, 2), (2, 3)] \<and> GetSize example_store 0 = Some 3 \<and>
   (\<exists>it s'. InsertAfter example_store 0 (before_begin 0) 9 = Some (it, s') \<and>
      PushFront example_store 0 9 = Some s' \<and>
      elements s' 0 = Some [9, 1, 2, 3] \<and> GetSize s' 0 = Some 4 \<and>
      begin_iter s' 0 = Some it \<and> iter_deref s' it = Some 9)"
proof -
  have h: "nodes_at example_store 0 [(0, 1), (1, 2), (2, 3)] \<and> GetSize example_store 0 = Some 3"
    by (simp add: nodes_at_def GetSize_def example_store_def slot_def chain_def)
  show ?thesis
    using h insert_after_before_begin [of example_store 0 9 "[(0, 1), (1, 2), (2, 3)]" 3]
    by auto
qed

lemma PopFront_empty_noop:
  "nodes_at s l [] \<Longrightarrow> PopFront s l = Some s"
  by (auto simp: nodes_at_def chain_def PopFront_def split: option.splits)

lemma EraseAfter_empty_undefined:
  "nodes_at s l [] \<Longrightarrow> EraseAfter s l (before_begin l) = None"
  by (auto simp: nodes_at_def chain_def EraseAfter_def before_begin_def Iterator_def
      split: option.splits)

text \<open>
  C5. On a list that has a first element (nodes \<open>(a, w) # avs\<close>, size \<open>n\<close>),
  \<^verbatim>\<open>EraseAfter(before_begin())\<close> and \<^verbatim>\<open>PopFront()\<close> give the same store: the first node is
  deallocated, the remaining elements are \<open>avs\<close> in order and \<^verbatim>\<open>size_\<close> is \<open>n - 1\<close>. The
  returned iterator references the node now first, that is, the node that followed the
  erased one, or the end marker when there is none.
\<close>

theorem erase_after_before_begin:
  assumes "nodes_at s l ((a, w) # avs)" "GetSize s l = Some n"
  shows "\<exists>it s'. EraseAfter s l (before_begin l) = Some (it, s') \<and>
      PopFront s l = Some s' \<and>
      elements s l = Some (w # map snd avs) \<and>
      nodes_at s' l avs \<and> elements s' l = Some (map snd avs) \<and>
      GetSize s' l = Some (n - 1) \<and> slot (heap s') a = None \<and>
      it = Iterator (ptr_of avs) \<and> begin_iter s' l = Some it \<and>
      (avs = [] \<longrightarrow> iter_eq it (end_iter l)) \<and>
      (avs \<noteq> [] \<longrightarrow> iter_deref s' it = Some (snd (hd avs)))"
proof -
  have "nodes_at s l ([] @ (a, w) # avs)" using assms(1) by simp
  from EraseAfter_nodes_at [OF this assms(2)] obtain s' where
    s': "EraseAfter s l (before_begin l) = Some (Iterator (ptr_of avs), s')" "nodes_at s' l avs"
    "GetSize s' l = Some (n - 1)" "slot (heap s') a = None"
    by (auto simp: pos_after_def before_begin_def)
  from PopFront_nodes_at [OF assms] obtain s2 where s2: "PopFront s l = Some s2" by blast
  from assms(1) obtain L c where L: "slot (objs s) l = Some L" "next_node (head_m L) = Cell a"
    "slot (heap s) a = Some c"
    by (auto simp: nodes_at_def chain_def split: option.splits)
  have "PopFront s l = Some s'"
    using s'(1) by (simp add: before_begin_def PopFront_Cell [OF L] EraseAfter_Head [OF L])
  moreover have "elements s l = Some (w # map snd avs)"
    using elements_nodes_at [OF assms(1)] by simp
  moreover have "avs \<noteq> [] \<longrightarrow> iter_deref s' (Iterator (ptr_of avs)) = Some (snd (hd avs))"
  proof
    assume "avs \<noteq> []"
    then obtain b u r where "avs = (b, u) # r" by (cases avs) auto
    then show "iter_deref s' (Iterator (ptr_of avs)) = Some (snd (hd avs))"
      using iter_deref_nodes_at_front [of s' l b u r] s'(2) by (simp add: ptr_of_def)
  qed
  moreover have "avs = [] \<longrightarrow> iter_eq (Iterator (ptr_of avs)) (end_iter l)"
    by (simp add: ptr_of_def iter_eq_def end_iter_def Iterator_def Iterator_default_def)
  ultimately show ?thesis
    using s' elements_nodes_at [OF s'(2)] begin_iter_nodes_at [OF s'(2)] by simp
qed

theorem erase_after_before_begin_witness:
  "nodes_at example_store 0 [(0, 1), (1, 2), (2, 3)] \<and> GetSize example_store 0 = Some 3 \<and>
   (\<exists>it s'. EraseAfter example_store 0 (before_begin 0) = Some (it, s') \<and>
      PopFront example_store 0 = Some s' \<and>
      elements example_store 0 = Some [1, 2, 3] \<and> elements s' 0 = Some [2, 3] \<and>
      GetSize s' 0 = Some 2 \<and> slot (heap s') 0 = None \<and> begin_iter s' 0 = Some it \<and>
      iter_deref s' it = Some 2)"
proof -
  have h: "nodes_at example_store 0 [(0, 1), (1, 2), (2, 3)]" "GetSize example_store 0 = Some 3"
    by (simp_all add: nodes_at_def GetSize_def example_store_def slot_def chain_def)
  show ?thesis using h erase_after_before_begin [OF h] by auto
qed

text \<open>
  C6. For two lists with nodes \<open>avs\<close> and \<open>bvs\<close>, over an element type with equality and a
  linear order: \<^verbatim>\<open>operator==\<close> returns true iff the lists have the same length and equal
  elements position by position; \<^verbatim>\<open>operator<\<close> returns the standard lexicographic order
  of the value sequences (so the empty list is below every non-empty list and a proper
  prefix is below its extension); and \<^verbatim>\<open>!=\<close>, \<^verbatim>\<open><=\<close>, \<^verbatim>\<open>>\<close>, \<^verbatim>\<open>>=\<close> return the values
  derived from \<^verbatim>\<open><\<close> and \<^verbatim>\<open>==\<close>: not equal, less or equal, not (less or equal), not less.
\<close>

theorem comparison_operators:
  assumes "nodes_at s l avs" "nodes_at s r bvs"
  shows "list_eq s l r =
           Some (length avs = length bvs \<and> (\<forall>i < length avs. snd (avs ! i) = snd (bvs ! i))) \<and>
         list_eq s l r = Some (map snd avs = map snd bvs) \<and>
         list_lt s l r = Some (lex_less (map snd avs) (map snd bvs)) \<and>
         list_lt s l r = Some ((map snd avs, map snd bvs) \<in> lexord {(x, y). x < y}) \<and>
         (avs = [] \<and> bvs \<noteq> [] \<longrightarrow> list_lt s l r = Some True) \<and>
         (\<forall>y ys. map snd bvs = map snd avs @ y # ys \<longrightarrow> list_lt s l r = Some True) \<and>
         (\<exists>lt eq. list_lt s l r = Some lt \<and> list_eq s l r = Some eq \<and>
            list_ne s l r = Some (\<not> eq) \<and>
            list_le s l r = Some (lt \<or> eq) \<and>
            list_gt s l r = Some (\<not> (lt \<or> eq)) \<and>
            list_ge s l r = Some (\<not> lt))"
proof -
  have eq: "list_eq s l r = Some (map snd avs = map snd bvs)"
    using assms by (rule list_eq_nodes_at)
  have lt: "list_lt s l r = Some (lex_less (map snd avs) (map snd bvs))"
    using assms by (rule list_lt_nodes_at)
  have "(map snd avs = map snd bvs) =
      (length avs = length bvs \<and> (\<forall>i < length avs. snd (avs ! i) = snd (bvs ! i)))"
    by (auto simp: list_eq_iff_nth_eq)
  with eq have 1: "list_eq s l r =
      Some (length avs = length bvs \<and> (\<forall>i < length avs. snd (avs ! i) = snd (bvs ! i)))"
    by simp
  have 2: "list_lt s l r = Some ((map snd avs, map snd bvs) \<in> lexord {(x, y). x < y})"
    using lt by (simp add: lex_less_lexord)
  have 3: "avs = [] \<and> bvs \<noteq> [] \<longrightarrow> list_lt s l r = Some True"
    using lt by (auto simp: lex_less_Nil_iff)
  have 4: "\<forall>y ys. map snd bvs = map snd avs @ y # ys \<longrightarrow> list_lt s l r = Some True"
    using lt by (auto simp: lex_less_prefix)
  have ne: "list_ne s l r = Some (\<not> (map snd avs = map snd bvs))"
    using eq by (auto simp: list_ne_def list_eq_def split: bind_splits)
  have le: "list_le s l r =
      Some (lex_less (map snd avs) (map snd bvs) \<or> map snd avs = map snd bvs)"
    using eq lt by (simp add: list_le_def)
  have gt: "list_gt s l r =
      Some (\<not> (lex_less (map snd avs) (map snd bvs) \<or> map snd avs = map snd bvs))"
    using le by (simp add: list_gt_def)
  have ge: "list_ge s l r = Some (\<not> lex_less (map snd avs) (map snd bvs))"
    using lt by (simp add: list_ge_def)
  show ?thesis
    using 1 eq lt 2 3 4 ne le gt ge by blast
qed

theorem comparison_operators_witness:
  "nodes_at example_store 0 [(0, 1), (1, 2), (2, 3)] \<and>
   nodes_at example_store (Suc 0) [(3, 1), (4, 2)] \<and>
   nodes_at example_store 2 [] \<and>
   nodes_at example_store 3 [(5, 1), (6, 2), (7, 4)] \<and>
   list_eq example_store 0 3 = Some False \<and>
   list_lt example_store 0 3 = Some True \<and>
   list_ne example_store 0 3 = Some True \<and>
   list_le example_store 0 3 = Some True \<and>
   list_gt example_store 0 3 = Some False \<and>
   list_ge example_store 0 3 = Some False \<and>
   list_eq example_store 0 0 = Some True \<and>
   ([] = ([] :: (nat \<times> int) list) \<and> [(0, 1), (1, 2), (2, 3)] \<noteq> ([] :: (nat \<times> int) list)) \<and>
   list_lt example_store 2 0 = Some True \<and>
   map snd [(0, 1), (1, 2), (2, 3 :: int)] = map snd [(3 :: nat, 1), (4, 2)] @ 3 # [] \<and>
   list_lt example_store (Suc 0) 0 = Some True"
proof -
  have h: "nodes_at example_store 0 [(0, 1), (1, 2), (2, 3)]"
    "nodes_at example_store (Suc 0) [(3, 1), (4, 2)]"
    "nodes_at example_store 2 []"
    "nodes_at example_store 3 [(5, 1), (6, 2), (7, 4)]"
    by (simp_all add: nodes_at_def example_store_def slot_def chain_def)
  have a: "list_eq example_store 0 3 = Some False \<and>
   list_lt example_store 0 3 = Some True \<and>
   list_ne example_store 0 3 = Some True \<and>
   list_le example_store 0 3 = Some True \<and>
   list_gt example_store 0 3 = Some False \<and>
   list_ge example_store 0 3 = Some False"
    using comparison_operators [OF h(1) h(4)] by auto
  have b: "list_eq example_store 0 0 = Some True"
    using comparison_operators [OF h(1) h(1)] by simp
  have c: "list_lt example_store 2 0 = Some True"
    using comparison_operators [OF h(3) h(1)] by simp
  have d: "list_lt example_store (Suc 0) 0 = Some True"
    using comparison_operators [OF h(2) h(1)] by simp
  show ?thesis using h a b c d by simp
qed

lemma comparison_examples:
  "list_lt example_store 2 0 = Some True"
  "list_lt example_store (Suc 0) 0 = Some True"
  "list_lt example_store 0 3 = Some True"
  "list_eq example_store 0 0 = Some True"
  "list_lt example_store 0 (Suc 0) = Some False"
  using list_at_nodes_at [OF example_list_0] list_at_nodes_at [OF example_list_1]
    list_at_nodes_at [OF example_list_2] list_at_nodes_at [OF example_list_3]
  by (simp_all add: list_lt_nodes_at list_eq_nodes_at)

text \<open>
  C8. For lists \<open>a\<close> and \<open>b\<close> with nodes \<open>avs\<close> and \<open>bvs\<close>, \<^verbatim>\<open>a.swap(b)\<close> and the free
  \<^verbatim>\<open>swap(a, b)\<close> succeed with the same store, in which \<open>a\<close> holds exactly the nodes (same
  addresses, same values) and the size that \<open>b\<close> held and \<open>b\<close> those of \<open>a\<close>. The node heap
  is unchanged: no node is copied, moved, allocated or deallocated; no other list object
  changes, and in \<open>a\<close> and \<open>b\<close> only the sentinel's link and the size counter do.
\<close>

theorem swap_exchanges:
  assumes "list_at s a avs" "list_at s b bvs"
  shows "\<exists>s'. swap s a b = Some s' \<and> swap_free s a b = Some s' \<and>
      list_at s' a bvs \<and> list_at s' b avs \<and>
      elements s' a = Some (map snd bvs) \<and> elements s' b = Some (map snd avs) \<and>
      elements s a = Some (map snd avs) \<and> elements s b = Some (map snd bvs) \<and>
      GetSize s' a = GetSize s b \<and> GetSize s' b = GetSize s a \<and>
      heap s' = heap s \<and> length (objs s') = length (objs s) \<and>
      (\<forall>l. l \<noteq> a \<and> l \<noteq> b \<longrightarrow> slot (objs s') l = slot (objs s) l) \<and>
      map_option (value_m \<circ> head_m) (slot (objs s') a) =
        map_option (value_m \<circ> head_m) (slot (objs s) a) \<and>
      map_option (value_m \<circ> head_m) (slot (objs s') b) =
        map_option (value_m \<circ> head_m) (slot (objs s) b)"
proof -
  from list_at_GetSize [OF assms(1)] obtain n where n: "GetSize s a = Some n" "unat n = length avs"
    by blast
  from list_at_GetSize [OF assms(2)] obtain m where m: "GetSize s b = Some m" "unat m = length bvs"
    by blast
  have na: "nodes_at s a avs" and nb: "nodes_at s b bvs"
    using assms by (simp_all add: list_at_iff)
  from swap_nodes_at [OF na nb n(1) m(1)] obtain s' where s': "swap s a b = Some s'"
    "nodes_at s' a bvs" "nodes_at s' b avs" "GetSize s' a = Some m" "GetSize s' b = Some n"
    "heap s' = heap s" "length (objs s') = length (objs s)"
    by blast
  from na obtain A where A: "slot (objs s) a = Some A" "a < length (objs s)"
    by (blast dest: nodes_atD)
  from nb obtain B where B: "slot (objs s) b = Some B" "b < length (objs s)"
    by (blast dest: nodes_atD)
  have eq: "s' = s\<lparr>objs := (objs s)
      [b := Some (B\<lparr>head_m := (head_m B)\<lparr>next_node := next_node (head_m A)\<rparr>, size_m := size_m A\<rparr>),
       a := Some (A\<lparr>head_m := (head_m A)\<lparr>next_node := next_node (head_m B)\<rparr>, size_m := size_m B\<rparr>)]\<rparr>"
    using s'(1) swap_eq [OF A(1) B(1)] by simp
  have other: "\<forall>l. l \<noteq> a \<and> l \<noteq> b \<longrightarrow> slot (objs s') l = slot (objs s) l"
    by (simp add: eq)
  have va: "map_option (value_m \<circ> head_m) (slot (objs s') a) =
        map_option (value_m \<circ> head_m) (slot (objs s) a)"
    using A B by (cases "a = b") (simp_all add: eq)
  have vb: "map_option (value_m \<circ> head_m) (slot (objs s') b) =
        map_option (value_m \<circ> head_m) (slot (objs s) b)"
    using A B by (cases "a = b") (simp_all add: eq)
  have "list_at s' a bvs" "list_at s' b avs"
    using s'(2-5) n(2) m(2) by (simp_all add: list_at_iff)
  then show ?thesis
    using s' n(1) m(1) other va vb elements_nodes_at [OF s'(2)] elements_nodes_at [OF s'(3)]
      elements_nodes_at [OF na] elements_nodes_at [OF nb]
    by (simp add: swap_free_def)
qed

theorem swap_exchanges_witness:
  "list_at example_store 0 [(0, 1), (1, 2), (2, 3)] \<and>
   list_at example_store (Suc 0) [(3, 1), (4, 2)] \<and>
   (\<exists>s'. swap example_store 0 (Suc 0) = Some s' \<and> swap_free example_store 0 (Suc 0) = Some s' \<and>
      list_at s' 0 [(3, 1), (4, 2)] \<and> list_at s' (Suc 0) [(0, 1), (1, 2), (2, 3)] \<and>
      elements s' 0 = Some [1, 2] \<and> elements s' (Suc 0) = Some [1, 2, 3] \<and>
      heap s' = heap example_store)"
  using example_list_0 example_list_1 swap_exchanges [OF example_list_0 example_list_1]
  by auto

text \<open>
  C7. Copy assignment \<^verbatim>\<open>l = r\<close> between two distinct lists that share no node succeeds and
  makes \<open>l\<close> hold the values of \<open>r\<close> in the same order, in nodes of its own, with the size
  of \<open>r\<close>, so that \<open>l == r\<close>; \<open>r\<close> keeps its nodes and size. Self-assignment returns the
  store unchanged.
\<close>

theorem copy_assignment:
  "assign s l l = Some s \<and>
   (list_at s l avs \<and> list_at s r bvs \<and> l \<noteq> r \<and> fst ` set avs \<inter> fst ` set bvs = {} \<longrightarrow>
     (\<exists>s' cvs. assign s l r = Some s' \<and>
        list_at s' l cvs \<and> map snd cvs = map snd bvs \<and>
        fst ` set cvs \<inter> fst ` set bvs = {} \<and>
        list_at s' r bvs \<and>
        elements s' l = Some (map snd bvs) \<and> elements s' r = Some (map snd bvs) \<and>
        elements s r = Some (map snd bvs) \<and>
        GetSize s' l = GetSize s r \<and> GetSize s' r = GetSize s r \<and>
        list_eq s' l r = Some True))"
proof (intro conjI impI)
  show "assign s l l = Some s" by (rule assign_self)
next
  assume a: "list_at s l avs \<and> list_at s r bvs \<and> l \<noteq> r \<and> fst ` set avs \<inter> fst ` set bvs = {}"
  let ?cvs = "fresh_nodes (length (heap s)) (map snd bvs)"
  from a have l: "list_at s l avs" and r: "list_at s r bvs" and lr: "l \<noteq> r"
    and disj: "fst ` set avs \<inter> fst ` set bvs = {}" by simp_all
  from assign_list_at [OF l r lr] obtain s' where s': "assign s l r = Some s'"
    "list_at s' l ?cvs" "GetSize s' l = GetSize s r" "untouched s {l} (fst ` set avs) s'"
    by blast
  have r': "list_at s' r bvs"
    using r s'(4) by (rule list_at_untouched) (use lr disj in auto)
  have "chain (heap s) (ptr_of bvs) bvs"
    using cbegin_nodes_at [OF list_at_nodes_at [OF r]] by simp
  then have d: "fst ` set ?cvs \<inter> fst ` set bvs = {}"
    by (rule fresh_nodes_disjoint) simp
  have gr: "GetSize s' r = GetSize s r"
    using list_at_GetSize [OF r] GetSize_untouched [OF _ s'(4), of r] lr by auto
  have "list_eq s' l r = Some True"
    using list_eq_nodes_at [OF list_at_nodes_at [OF s'(2)] list_at_nodes_at [OF r']] by simp
  then show "\<exists>s' cvs. assign s l r = Some s' \<and>
        list_at s' l cvs \<and> map snd cvs = map snd bvs \<and>
        fst ` set cvs \<inter> fst ` set bvs = {} \<and>
        list_at s' r bvs \<and>
        elements s' l = Some (map snd bvs) \<and> elements s' r = Some (map snd bvs) \<and>
        elements s r = Some (map snd bvs) \<and>
        GetSize s' l = GetSize s r \<and> GetSize s' r = GetSize s r \<and>
        list_eq s' l r = Some True"
    using s'(1-3) r' d gr
      elements_nodes_at [OF list_at_nodes_at [OF s'(2)]]
      elements_nodes_at [OF list_at_nodes_at [OF r']]
      elements_nodes_at [OF list_at_nodes_at [OF r]]
    by (intro exI [of _ s'] exI [of _ ?cvs]) simp
qed

theorem copy_assignment_witness:
  "assign example_store 0 0 = Some example_store \<and>
   (list_at example_store 0 [(0, 1), (1, 2), (2, 3)] \<and>
    list_at example_store (Suc 0) [(3, 1), (4, 2)] \<and> (0 :: nat) \<noteq> Suc 0 \<and>
    fst ` set [(0 :: nat, 1 :: int), (1, 2), (2, 3)] \<inter> fst ` set [(3, 1 :: int), (4, 2)] = {}) \<and>
   (\<exists>s'. assign example_store 0 (Suc 0) = Some s' \<and>
      elements s' 0 = Some [1, 2] \<and> elements s' (Suc 0) = Some [1, 2] \<and>
      list_at s' (Suc 0) [(3, 1), (4, 2)] \<and>
      GetSize s' 0 = Some 2 \<and> list_eq s' 0 (Suc 0) = Some True)"
proof -
  have g: "GetSize example_store (Suc 0) = Some 2"
    by (simp add: GetSize_def example_store_def slot_def)
  show ?thesis
    using example_list_0 example_list_1 g
      copy_assignment [of example_store 0 "[(0, 1), (1, 2), (2, 3)]" "Suc 0" "[(3, 1), (4, 2)]"]
    by auto
qed

text \<open>
  C1. For a list in its representation (the sentinel's link starts a chain of real nodes
  \<open>avs\<close> ending at the null pointer, and \<^verbatim>\<open>size_\<close> is their number), \<^verbatim>\<open>GetSize()\<close> returns the
  number of elements a traversal from \<^verbatim>\<open>begin()\<close> to \<^verbatim>\<open>end()\<close> yields. Every public
  operation succeeds and leaves the list in its representation again, with the stated
  nodes: \<^verbatim>\<open>PushFront\<close> and \<^verbatim>\<open>InsertAfter\<close> (while the new count fits \<^verbatim>\<open>size_t\<close>; the position
  is the sentinel or a node of this list), \<^verbatim>\<open>PopFront\<close>, \<^verbatim>\<open>EraseAfter\<close> (the position has a
  successor in this list), \<^verbatim>\<open>Clear\<close>, \<^verbatim>\<open>swap\<close>, copy assignment, copy construction,
  construction from a value sequence and default construction.
\<close>

theorem size_counter_invariant:
  assumes "list_at s l avs"
  shows "size_agrees s l \<and>
    (\<exists>n. GetSize s l = Some n \<and> unat n = length avs) \<and> elements s l = Some (map snd avs) \<and>
    (Suc (length avs) < 2 ^ 64 \<longrightarrow>
       (\<exists>s'. PushFront s l v = Some s' \<and> list_at s' l ((length (heap s), v) # avs) \<and>
          size_agrees s' l)) \<and>
    (\<exists>s'. PopFront s l = Some s' \<and> list_at s' l (tl avs) \<and> size_agrees s' l) \<and>
    (avs = xs @ ys \<and> Suc (length avs) < 2 ^ 64 \<longrightarrow>
       (\<exists>it s'. InsertAfter s l (pos_after l xs) v = Some (it, s') \<and>
          list_at s' l (xs @ (length (heap s), v) # ys) \<and> size_agrees s' l)) \<and>
    (avs = xs' @ y # ys' \<longrightarrow>
       (\<exists>it s'. EraseAfter s l (pos_after l xs') = Some (it, s') \<and>
          list_at s' l (xs' @ ys') \<and> size_agrees s' l)) \<and>
    (\<exists>s'. Clear s l = Some s' \<and> list_at s' l [] \<and> size_agrees s' l) \<and>
    (list_at s r bvs \<longrightarrow>
       (\<exists>s'. swap s l r = Some s' \<and> list_at s' l bvs \<and> list_at s' r avs \<and>
          size_agrees s' l \<and> size_agrees s' r)) \<and>
    (list_at s r bvs \<longrightarrow>
       (\<exists>s' cvs. assign s l r = Some s' \<and> list_at s' l cvs \<and> map snd cvs = map snd bvs \<and>
          size_agrees s' l)) \<and>
    (\<exists>c s' cvs. SingleLinkedList_copy s junk l = Some (c, s') \<and> list_at s' c cvs \<and>
       map snd cvs = map snd avs \<and> size_agrees s' c \<and> list_at s' l avs \<and> size_agrees s' l) \<and>
    (length vs < 2 ^ 64 \<longrightarrow>
       (\<exists>c s' cvs. SingleLinkedList_values s junk vs = Some (c, s') \<and> list_at s' c cvs \<and>
          map snd cvs = vs \<and> size_agrees s' c)) \<and>
    (\<exists>c s'. SingleLinkedList_default s junk = Some (c, s') \<and> list_at s' c [] \<and>
       size_agrees s' c)"
proof -
  have 1: "size_agrees s l" using assms by (rule size_agrees_list_at)
  have 2: "\<exists>n. GetSize s l = Some n \<and> unat n = length avs" using assms by (rule list_at_GetSize)
  have 3: "elements s l = Some (map snd avs)"
    using list_at_nodes_at [OF assms] by (rule elements_nodes_at)
  have 4: "Suc (length avs) < 2 ^ 64 \<longrightarrow>
       (\<exists>s'. PushFront s l v = Some s' \<and> list_at s' l ((length (heap s), v) # avs) \<and>
          size_agrees s' l)"
    using PushFront_list_at [OF assms, of v] by (blast intro: size_agrees_list_at)
  have 5: "\<exists>s'. PopFront s l = Some s' \<and> list_at s' l (tl avs) \<and> size_agrees s' l"
    using PopFront_list_at [OF assms] by (blast intro: size_agrees_list_at)
  have 6: "avs = xs @ ys \<and> Suc (length avs) < 2 ^ 64 \<longrightarrow>
       (\<exists>it s'. InsertAfter s l (pos_after l xs) v = Some (it, s') \<and>
          list_at s' l (xs @ (length (heap s), v) # ys) \<and> size_agrees s' l)"
  proof
    assume a: "avs = xs @ ys \<and> Suc (length avs) < 2 ^ 64"
    then have "list_at s l (xs @ ys)" "Suc (length (xs @ ys)) < 2 ^ 64" using assms by auto
    from InsertAfter_list_at [OF this, of v]
    show "\<exists>it s'. InsertAfter s l (pos_after l xs) v = Some (it, s') \<and>
          list_at s' l (xs @ (length (heap s), v) # ys) \<and> size_agrees s' l"
      by (blast intro: size_agrees_list_at)
  qed
  have 7: "avs = xs' @ y # ys' \<longrightarrow>
       (\<exists>it s'. EraseAfter s l (pos_after l xs') = Some (it, s') \<and>
          list_at s' l (xs' @ ys') \<and> size_agrees s' l)"
  proof
    assume "avs = xs' @ y # ys'"
    then have "list_at s l (xs' @ y # ys')" using assms by simp
    from EraseAfter_list_at [OF this]
    show "\<exists>it s'. EraseAfter s l (pos_after l xs') = Some (it, s') \<and>
          list_at s' l (xs' @ ys') \<and> size_agrees s' l"
      by (blast intro: size_agrees_list_at)
  qed
  have 8: "\<exists>s'. Clear s l = Some s' \<and> list_at s' l [] \<and> size_agrees s' l"
    using Clear_list_at [OF assms] by (blast intro: size_agrees_list_at)
  have 9: "list_at s r bvs \<longrightarrow>
       (\<exists>s'. swap s l r = Some s' \<and> list_at s' l bvs \<and> list_at s' r avs \<and>
          size_agrees s' l \<and> size_agrees s' r)"
    using swap_list_at [OF assms, of r bvs] by (blast intro: size_agrees_list_at)
  have 10: "list_at s r bvs \<longrightarrow>
       (\<exists>s' cvs. assign s l r = Some s' \<and> list_at s' l cvs \<and> map snd cvs = map snd bvs \<and>
          size_agrees s' l)"
    using assign_list_at_any [OF assms, of r bvs] by (blast intro: size_agrees_list_at)
  have 11: "\<exists>c s' cvs. SingleLinkedList_copy s junk l = Some (c, s') \<and> list_at s' c cvs \<and>
       map snd cvs = map snd avs \<and> size_agrees s' c \<and> list_at s' l avs \<and> size_agrees s' l"
  proof -
    from SingleLinkedList_copy_list_at [OF assms, of junk] obtain s' where
      s': "SingleLinkedList_copy s junk l = Some (length (objs s), s')"
      "list_at s' (length (objs s)) (fresh_nodes (length (heap s)) (map snd avs))"
      "list_at s' l avs"
      by blast
    show ?thesis
      using s' size_agrees_list_at [OF s'(2)] size_agrees_list_at [OF s'(3)]
      by (intro exI [of _ "length (objs s)"] exI [of _ s']
          exI [of _ "fresh_nodes (length (heap s)) (map snd avs)"]) simp
  qed
  have 12: "length vs < 2 ^ 64 \<longrightarrow>
       (\<exists>c s' cvs. SingleLinkedList_values s junk vs = Some (c, s') \<and> list_at s' c cvs \<and>
          map snd cvs = vs \<and> size_agrees s' c)"
  proof
    assume "length vs < 2 ^ 64"
    from SingleLinkedList_values_list_at [OF this, of s junk] obtain s' where
      s': "SingleLinkedList_values s junk vs = Some (length (objs s), s')"
      "list_at s' (length (objs s)) (fresh_nodes (length (heap s)) vs)"
      by blast
    show "\<exists>c s' cvs. SingleLinkedList_values s junk vs = Some (c, s') \<and> list_at s' c cvs \<and>
          map snd cvs = vs \<and> size_agrees s' c"
      using s' size_agrees_list_at [OF s'(2)]
      by (intro exI [of _ "length (objs s)"] exI [of _ s']
          exI [of _ "fresh_nodes (length (heap s)) vs"]) simp
  qed
  have 13: "\<exists>c s'. SingleLinkedList_default s junk = Some (c, s') \<and> list_at s' c [] \<and>
       size_agrees s' c"
    using SingleLinkedList_default_list_at [of s junk] by (blast intro: size_agrees_list_at)
  show ?thesis
    using 1 2 3 4 5 6 7 8 9 10 11 12 13 by (intro conjI)
qed

theorem size_counter_invariant_witness:
  "list_at example_store 0 [(0, 1), (1, 2), (2, 3)] \<and>
   Suc (length [(0 :: nat, 1 :: int), (1, 2), (2, 3)]) < 2 ^ 64 \<and>
   [(0 :: nat, 1 :: int), (1, 2), (2, 3)] = [(0, 1)] @ [(1, 2), (2, 3)] \<and>
   [(0 :: nat, 1 :: int), (1, 2), (2, 3)] = [(0, 1)] @ (1, 2) # [(2, 3)] \<and>
   list_at example_store (Suc 0) [(3, 1), (4, 2)] \<and>
   length [7 :: int, 8] < 2 ^ 64 \<and>
   size_agrees example_store 0 \<and> GetSize example_store 0 = Some 3 \<and>
   elements example_store 0 = Some [1, 2, 3] \<and>
   (\<exists>s'. PushFront example_store 0 9 = Some s' \<and> list_at s' 0 [(8, 9), (0, 1), (1, 2), (2, 3)] \<and>
      size_agrees s' 0) \<and>
   (\<exists>s'. PopFront example_store 0 = Some s' \<and> list_at s' 0 [(1, 2), (2, 3)] \<and>
      size_agrees s' 0) \<and>
   (\<exists>it s'. InsertAfter example_store 0 (Iterator (Cell 0)) 9 = Some (it, s') \<and>
      list_at s' 0 [(0, 1), (8, 9), (1, 2), (2, 3)] \<and> size_agrees s' 0) \<and>
   (\<exists>it s'. EraseAfter example_store 0 (Iterator (Cell 0)) = Some (it, s') \<and>
      list_at s' 0 [(0, 1), (2, 3)] \<and> size_agrees s' 0) \<and>
   (\<exists>s'. Clear example_store 0 = Some s' \<and> list_at s' 0 [] \<and> size_agrees s' 0) \<and>
   (\<exists>s'. swap example_store 0 (Suc 0) = Some s' \<and> size_agrees s' 0 \<and> size_agrees s' (Suc 0)) \<and>
   (\<exists>s'. assign example_store 0 (Suc 0) = Some s' \<and> size_agrees s' 0) \<and>
   (\<exists>c s'. SingleLinkedList_copy example_store 5 0 = Some (c, s') \<and> size_agrees s' c) \<and>
   (\<exists>c s'. SingleLinkedList_values example_store 5 [7, 8] = Some (c, s') \<and> size_agrees s' c) \<and>
   (\<exists>c s'. SingleLinkedList_default example_store 5 = Some (c, s') \<and> size_agrees s' c)"
proof -
  have g: "GetSize example_store 0 = Some 3" "length (heap example_store) = 8"
    by (simp_all add: GetSize_def example_store_def slot_def)
  have p: "pos_after 0 [(0 :: nat, 1 :: int)] = Iterator (Cell 0)"
    by (simp add: pos_after_def)
  show ?thesis
    using example_list_0 example_list_1 g p
      size_counter_invariant [OF example_list_0, of 9 "[(0, 1)]" "[(1, 2), (2, 3)]"
        "[(0, 1)]" "(1, 2)" "[(2, 3)]" "Suc 0" "[(3, 1), (4, 2)]" 5 "[7, 8]"]
    by (auto simp del: One_nat_def)
qed

text \<open>
  C3. Copy-constructing from a list \<open>l\<close> in its representation succeeds and gives a new
  list object \<open>c\<close> with the same length and the same values in the same order, held in
  nodes of its own, so that \<open>l == c\<close> right after construction; \<open>l\<close> is unchanged. Whatever
  sequence of \<^verbatim>\<open>PushFront\<close>, \<^verbatim>\<open>PopFront\<close>, \<^verbatim>\<open>InsertAfter\<close>, \<^verbatim>\<open>EraseAfter\<close> and \<^verbatim>\<open>Clear\<close> calls is
  then run on the copy (through the copy's own iterators), the elements of \<open>l\<close> stay the
  same, and likewise for the copy when \<open>l\<close> is mutated.
\<close>

theorem copy_construction_independent:
  assumes "list_at s l avs"
  shows "\<exists>c s' cvs. SingleLinkedList_copy s junk l = Some (c, s') \<and> c \<noteq> l \<and>
      list_at s' c cvs \<and> list_at s' l avs \<and>
      length cvs = length avs \<and> map snd cvs = map snd avs \<and>
      fst ` set cvs \<inter> fst ` set avs = {} \<and>
      GetSize s' c = GetSize s' l \<and>
      list_eq s' l c = Some True \<and> list_eq s' c l = Some True \<and>
      elements s' c = Some (map snd avs) \<and> elements s' l = Some (map snd avs) \<and>
      (\<forall>ms t. mutate_all s' c ms = Some t \<longrightarrow> elements t l = Some (map snd avs)) \<and>
      (\<forall>ms t. mutate_all s' l ms = Some t \<longrightarrow> elements t c = Some (map snd avs))"
proof -
  let ?c = "length (objs s)"
  let ?cvs = "fresh_nodes (length (heap s)) (map snd avs)"
  from SingleLinkedList_copy_list_at [OF assms, of junk] obtain s' where
    s': "SingleLinkedList_copy s junk l = Some (?c, s')" "list_at s' ?c ?cvs" "list_at s' l avs"
    by blast
  have nl: "nodes_at s' l avs" and nc: "nodes_at s' ?c ?cvs"
    using s'(2,3) by (simp_all add: list_at_nodes_at)
  have cl: "?c \<noteq> l" using list_at_nodes_at [OF assms] by (auto dest: nodes_atD)
  have "chain (heap s) (ptr_of avs) avs"
    using cbegin_nodes_at [OF list_at_nodes_at [OF assms]] by simp
  then have disj: "fst ` set ?cvs \<inter> fst ` set avs = {}"
    by (rule fresh_nodes_disjoint) simp
  have sz: "GetSize s' ?c = GetSize s' l"
    using list_at_GetSize [OF s'(2)] list_at_GetSize [OF s'(3)]
    by (auto simp: word_unat_eq_iff)
  have eq: "list_eq s' l ?c = Some True" "list_eq s' ?c l = Some True"
    using list_eq_nodes_at [OF nl nc] list_eq_nodes_at [OF nc nl] by simp_all
  have el: "elements s' ?c = Some (map snd avs)" "elements s' l = Some (map snd avs)"
    using elements_nodes_at [OF nc] elements_nodes_at [OF nl] by simp_all
  have m1: "\<forall>ms t. mutate_all s' ?c ms = Some t \<longrightarrow> elements t l = Some (map snd avs)"
  proof (intro allI impI)
    fix ms t assume "mutate_all s' ?c ms = Some t"
    with nc nl cl disj have "nodes_at t l avs" by (rule mutate_all_frame)
    then show "elements t l = Some (map snd avs)" by (rule elements_nodes_at)
  qed
  have m2: "\<forall>ms t. mutate_all s' l ms = Some t \<longrightarrow> elements t ?c = Some (map snd avs)"
  proof (intro allI impI)
    fix ms t assume m: "mutate_all s' l ms = Some t"
    have "fst ` set avs \<inter> fst ` set ?cvs = {}" using disj by auto
    with nl nc cl [symmetric] have "nodes_at t ?c ?cvs"
      using m by (rule mutate_all_frame)
    then show "elements t ?c = Some (map snd avs)" using elements_nodes_at by fastforce
  qed
  show ?thesis
    using s' cl disj sz eq el m1 m2
    by (intro exI [of _ ?c] exI [of _ s'] exI [of _ ?cvs]) simp
qed

theorem copy_construction_independent_witness:
  "list_at example_store 0 [(0, 1), (1, 2), (2, 3)] \<and>
   (\<exists>c s' t u. SingleLinkedList_copy example_store 0 0 = Some (c, s') \<and>
      list_eq s' 0 c = Some True \<and>
      mutate_all s' c [Do_PushFront 9, Do_EraseAfter 1, Do_InsertAfter 2 5, Do_PopFront] = Some t \<and>
      elements t c = Some [2, 5, 3] \<and> elements t 0 = Some [1, 2, 3] \<and>
      mutate_all s' 0 [Do_Clear, Do_PushFront 7] = Some u \<and>
      elements u 0 = Some [7] \<and> elements u c = Some [1, 2, 3])"
proof -
  have "do { (c, s') \<leftarrow> SingleLinkedList_copy example_store 0 0;
             t \<leftarrow> mutate_all s' c [Do_PushFront 9, Do_EraseAfter 1, Do_InsertAfter 2 5, Do_PopFront];
             u \<leftarrow> mutate_all s' 0 [Do_Clear, Do_PushFront 7];
             xs \<leftarrow> elements t c;
             ys \<leftarrow> elements u 0;
             Some (xs, ys) } = Some ([2, 5, 3], [7])"
    by code_simp
  then obtain c s' t u where e: "SingleLinkedList_copy example_store 0 0 = Some (c, s')"
    "mutate_all s' c [Do_PushFront 9, Do_EraseAfter 1, Do_InsertAfter 2 5, Do_PopFront] = Some t"
    "mutate_all s' 0 [Do_Clear, Do_PushFront 7] = Some u"
    "elements t c = Some [2, 5, 3]" "elements u 0 = Some [7]"
    by (auto split: bind_splits)
  from copy_construction_independent [OF example_list_0, of 0] e(1)
  have "list_eq s' 0 c = Some True"
    "\<forall>ms t. mutate_all s' c ms = Some t \<longrightarrow> elements t 0 = Some [1, 2, 3]"
    "\<forall>ms t. mutate_all s' 0 ms = Some t \<longrightarrow> elements t c = Some [1, 2, 3]"
    by auto
  with e example_list_0 show ?thesis by blast
qed

end
